theory Spec2Isabelle
  imports Main "HOL-Library.Multiset" "HOL-Library.Word" "HOL-Library.Char_ord"
    "HOL-Library.List_Lexorder"
begin

unbundle bit_operations_syntax

section \<open>Memory model\<close>

text \<open>
  The queue of \<^verbatim>\<open>queue.c\<close> is a circular doubly-linked list of \<^verbatim>\<open>struct list_head\<close>
  nodes. The sentinel is a bare \<^verbatim>\<open>struct list_head\<close>; every element is an
  \<^verbatim>\<open>element_t { char *value; struct list_head list; }\<close>. The functions alias nodes
  freely, so memory is an explicit store from addresses to objects. Address \<open>0\<close> is
  the C \<^verbatim>\<open>NULL\<close>.

  An element and its embedded link node share one address in the model:
  \<^verbatim>\<open>list_entry(p, element_t, list)\<close> subtracts a fixed offset from \<open>p\<close>, so it is
  injective and is modelled as the identity.
\<close>

type_synonym addr = nat

abbreviation NULL :: addr where
  "NULL \<equiv> 0"

datatype obj =
    ListHead addr addr          \<comment> \<open>\<^verbatim>\<open>struct list_head\<close>: next, prev\<close>
  | Element addr addr addr      \<comment> \<open>\<^verbatim>\<open>element_t\<close>: value, list.next, list.prev\<close>
  | Chars "char list"           \<comment> \<open>a \<^verbatim>\<open>char\<close> buffer; its length is its capacity\<close>

text \<open>
  The allocator is not part of \<^verbatim>\<open>queue.c\<close> (\<^verbatim>\<open>malloc\<close> and \<^verbatim>\<open>free\<close> come from
  \<^verbatim>\<open>harness.h\<close>). It is a parameter of the state: \<open>alloc\<close> lists the results of the
  coming \<^verbatim>\<open>malloc\<close> calls, and when the list is used up every call fails. An entry
  gives the address of the block, \<open>NULL\<close> standing for a failed call, and the
  indeterminate contents C leaves in a fresh block: the pointer found in field \<open>i\<close> and
  the byte found at offset \<open>i\<close>.
\<close>

record block =
  base :: addr
  junk_ptr :: "nat \<Rightarrow> addr"
  junk_char :: "nat \<Rightarrow> char"

record state =
  heap :: "addr \<rightharpoonup> obj"
  alloc :: "block list"

text \<open>What a C program does on a bad access is a crash; the model returns a fault.\<close>

datatype fault = NullPointer | InvalidPointer | OutOfBounds

definition bindf :: "fault + 'a \<Rightarrow> ('a \<Rightarrow> fault + 'b) \<Rightarrow> fault + 'b" where
  "bindf m f = (case m of Inl e \<Rightarrow> Inl e | Inr x \<Rightarrow> f x)"

subsection \<open>Field access\<close>

definition get_next :: "state \<Rightarrow> addr \<Rightarrow> fault + addr" where
  "get_next s p =
     (if p = NULL then Inl NullPointer
      else case heap s p of
             Some (ListHead n q) \<Rightarrow> Inr n
           | Some (Element v n q) \<Rightarrow> Inr n
           | _ \<Rightarrow> Inl InvalidPointer)"

definition get_prev :: "state \<Rightarrow> addr \<Rightarrow> fault + addr" where
  "get_prev s p =
     (if p = NULL then Inl NullPointer
      else case heap s p of
             Some (ListHead n q) \<Rightarrow> Inr q
           | Some (Element v n q) \<Rightarrow> Inr q
           | _ \<Rightarrow> Inl InvalidPointer)"

definition get_value :: "state \<Rightarrow> addr \<Rightarrow> fault + addr" where
  "get_value s p =
     (if p = NULL then Inl NullPointer
      else case heap s p of
             Some (Element v n q) \<Rightarrow> Inr v
           | _ \<Rightarrow> Inl InvalidPointer)"

definition get_chars :: "state \<Rightarrow> addr \<Rightarrow> fault + char list" where
  "get_chars s p =
     (if p = NULL then Inl NullPointer
      else case heap s p of
             Some (Chars b) \<Rightarrow> Inr b
           | _ \<Rightarrow> Inl InvalidPointer)"

definition set_next :: "addr \<Rightarrow> addr \<Rightarrow> state \<Rightarrow> fault + state" where
  "set_next p x s =
     (if p = NULL then Inl NullPointer
      else case heap s p of
             Some (ListHead n q) \<Rightarrow> Inr (s\<lparr>heap := (heap s)(p \<mapsto> ListHead x q)\<rparr>)
           | Some (Element v n q) \<Rightarrow> Inr (s\<lparr>heap := (heap s)(p \<mapsto> Element v x q)\<rparr>)
           | _ \<Rightarrow> Inl InvalidPointer)"

definition set_prev :: "addr \<Rightarrow> addr \<Rightarrow> state \<Rightarrow> fault + state" where
  "set_prev p x s =
     (if p = NULL then Inl NullPointer
      else case heap s p of
             Some (ListHead n q) \<Rightarrow> Inr (s\<lparr>heap := (heap s)(p \<mapsto> ListHead n x)\<rparr>)
           | Some (Element v n q) \<Rightarrow> Inr (s\<lparr>heap := (heap s)(p \<mapsto> Element v n x)\<rparr>)
           | _ \<Rightarrow> Inl InvalidPointer)"

definition set_value :: "addr \<Rightarrow> addr \<Rightarrow> state \<Rightarrow> fault + state" where
  "set_value p x s =
     (if p = NULL then Inl NullPointer
      else case heap s p of
             Some (Element v n q) \<Rightarrow> Inr (s\<lparr>heap := (heap s)(p \<mapsto> Element x n q)\<rparr>)
           | _ \<Rightarrow> Inl InvalidPointer)"

subsection \<open>Allocation\<close>

text \<open>
  The argument of \<^verbatim>\<open>malloc\<close> is a size; the three sizes \<^verbatim>\<open>queue.c\<close> asks for are
  \<^verbatim>\<open>sizeof(struct list_head)\<close>, \<^verbatim>\<open>sizeof(element_t)\<close> and a number of bytes. The fresh
  block holds whatever the allocator's entry says: nothing is zeroed.
\<close>

datatype request = SizeofListHead | SizeofElement | Bytes nat

fun fresh_obj :: "request \<Rightarrow> block \<Rightarrow> obj" where
  "fresh_obj SizeofListHead b = ListHead (junk_ptr b 0) (junk_ptr b 1)"
| "fresh_obj SizeofElement b = Element (junk_ptr b 0) (junk_ptr b 1) (junk_ptr b 2)"
| "fresh_obj (Bytes n) b = Chars (map (junk_char b) [0..<n])"

definition malloc :: "request \<Rightarrow> state \<Rightarrow> addr \<times> state" where
  "malloc sz s =
     (case alloc s of
        [] \<Rightarrow> (NULL, s)
      | b # rest \<Rightarrow>
          if base b = NULL then (NULL, s\<lparr>alloc := rest\<rparr>)
          else (base b, s\<lparr>heap := (heap s)(base b \<mapsto> fresh_obj sz b), alloc := rest\<rparr>))"

definition free :: "addr \<Rightarrow> state \<Rightarrow> fault + state" where
  "free p s =
     (if p = NULL then Inr s
      else case heap s p of
             None \<Rightarrow> Inl InvalidPointer
           | Some ob \<Rightarrow> Inr (s\<lparr>heap := (heap s)(p := None)\<rparr>))"

subsection \<open>C strings\<close>

text \<open>
  The functions of \<^verbatim>\<open>string.h\<close>, as the C standard describes them. A \<^verbatim>\<open>char *\<close>
  argument that is only read is passed as the bytes found at the pointer; the string it
  denotes is the prefix before the first NUL byte.
\<close>

definition NUL :: char where
  "NUL = CHR 0x00"

definition cstr :: "char list \<Rightarrow> char list" where
  "cstr b = takeWhile (\<lambda>c. c \<noteq> NUL) b"

definition strlen :: "char list \<Rightarrow> nat" where
  "strlen b = length (cstr b)"

text \<open>
  \<^verbatim>\<open>strncpy(dst, src, n)\<close> writes exactly \<open>n\<close> bytes: the string at \<open>src\<close>, cut at \<open>n\<close>
  bytes or padded with NUL bytes up to \<open>n\<close>.
\<close>

definition strncpy :: "addr \<Rightarrow> char list \<Rightarrow> nat \<Rightarrow> state \<Rightarrow> fault + state" where
  "strncpy dst src n s =
     bindf (get_chars s dst) (\<lambda>b.
       if length b < n then Inl OutOfBounds
       else Inr (s\<lparr>heap := (heap s)(dst \<mapsto>
              Chars (take n (cstr src) @ replicate (n - strlen src) NUL @ drop n b))\<rparr>))"

definition set_char :: "addr \<Rightarrow> nat \<Rightarrow> char \<Rightarrow> state \<Rightarrow> fault + state" where
  "set_char p i c s =
     bindf (get_chars s p) (\<lambda>b.
       if length b \<le> i then Inl OutOfBounds
       else Inr (s\<lparr>heap := (heap s)(p \<mapsto> Chars (b[i := c]))\<rparr>))"

text \<open>
  \<^verbatim>\<open>strcmp\<close> compares byte by byte as \<^verbatim>\<open>unsigned char\<close>; only the sign of its
  result is specified, and the difference of the first differing bytes has that sign.
\<close>

fun strcmp_bytes :: "char list \<Rightarrow> char list \<Rightarrow> int" where
  "strcmp_bytes [] [] = 0"
| "strcmp_bytes [] (d # ds) = - 1"
| "strcmp_bytes (c # cs) [] = 1"
| "strcmp_bytes (c # cs) (d # ds) =
     (if c = d then strcmp_bytes cs ds
      else int (of_char c) - int (of_char d))"

definition strcmp :: "char list \<Rightarrow> char list \<Rightarrow> int" where
  "strcmp a b = strcmp_bytes (cstr a) (cstr b)"

section \<open>The list primitives of \<^verbatim>\<open>list.h\<close>\<close>

text \<open>
  Modelled from the spec: \<^verbatim>\<open>list.h\<close> is not among the sources. The spec's data model
  (a sentinel whose next and prev point to itself when the queue is empty; linking a
  node immediately after or before the sentinel; unlinking a node and restoring its
  self-referential isolation) fixes these primitives, which are those of the Linux
  kernel's list API.
\<close>

definition INIT_LIST_HEAD :: "addr \<Rightarrow> state \<Rightarrow> fault + state" where
  "INIT_LIST_HEAD head s =
     bindf (set_next head head s) (\<lambda>s1. set_prev head head s1)"

definition list_add :: "addr \<Rightarrow> addr \<Rightarrow> state \<Rightarrow> fault + state" where
  "list_add node head s =
     bindf (get_next s head) (\<lambda>nxt.
     bindf (set_prev nxt node s) (\<lambda>s1.
     bindf (set_next node nxt s1) (\<lambda>s2.
     bindf (set_prev node head s2) (\<lambda>s3.
     set_next head node s3))))"

definition list_add_tail :: "addr \<Rightarrow> addr \<Rightarrow> state \<Rightarrow> fault + state" where
  "list_add_tail node head s =
     bindf (get_prev s head) (\<lambda>prv.
     bindf (set_next prv node s) (\<lambda>s1.
     bindf (set_next node head s1) (\<lambda>s2.
     bindf (set_prev node prv s2) (\<lambda>s3.
     set_prev head node s3))))"

definition list_del :: "addr \<Rightarrow> state \<Rightarrow> fault + state" where
  "list_del node s =
     bindf (get_next s node) (\<lambda>nxt.
     bindf (get_prev s node) (\<lambda>prv.
     bindf (set_prev nxt prv s) (\<lambda>s1.
     set_next prv nxt s1)))"

definition list_del_init :: "addr \<Rightarrow> state \<Rightarrow> fault + state" where
  "list_del_init node s = bindf (list_del node s) (\<lambda>s1. INIT_LIST_HEAD node s1)"

definition list_empty :: "state \<Rightarrow> addr \<Rightarrow> fault + bool" where
  "list_empty s head = bindf (get_next s head) (\<lambda>nxt. Inr (nxt = head))"

definition list_is_singular :: "state \<Rightarrow> addr \<Rightarrow> fault + bool" where
  "list_is_singular s head =
     bindf (list_empty s head) (\<lambda>e.
       if e then Inr False
       else bindf (get_prev s head) (\<lambda>prv.
            bindf (get_next s head) (\<lambda>nxt. Inr (prv = nxt))))"

section \<open>The queue operations of \<^verbatim>\<open>queue.c\<close>\<close>

subsection \<open>\<^verbatim>\<open>q_new\<close>, \<^verbatim>\<open>q_insert_head\<close>, \<^verbatim>\<open>q_insert_tail\<close>\<close>

definition q_new :: "state \<Rightarrow> fault + addr \<times> state" where
  "q_new s =
     (let (q, s1) = malloc SizeofListHead s in
      if q = NULL then Inr (NULL, s1)
      else bindf (INIT_LIST_HEAD q s1) (\<lambda>s2. Inr (q, s2)))"

definition q_insert_head :: "addr \<Rightarrow> char list \<Rightarrow> state \<Rightarrow> fault + bool \<times> state" where
  "q_insert_head head s st =
     (if head = NULL then Inr (False, st)
      else
        let (new_node, st1) = malloc SizeofElement st in
        if new_node = NULL then Inr (False, st1)
        else
          let (buf, st2) = malloc (Bytes (strlen s + 1)) st1 in
          bindf (set_value new_node buf st2) (\<lambda>st3.
          bindf (get_value st3 new_node) (\<lambda>v.
            if v = NULL then bindf (free new_node st3) (\<lambda>st4. Inr (False, st4))
            else
              bindf (strncpy v s (strlen s) st3) (\<lambda>st4.
              bindf (set_char v (strlen s) NUL st4) (\<lambda>st5.
              bindf (list_add new_node head st5) (\<lambda>st6.
              Inr (True, st6)))))))"

definition q_insert_tail :: "addr \<Rightarrow> char list \<Rightarrow> state \<Rightarrow> fault + bool \<times> state" where
  "q_insert_tail head s st =
     (if head = NULL then Inr (False, st)
      else
        let (new_tail, st1) = malloc SizeofElement st in
        if new_tail = NULL then Inr (False, st1)
        else
          let (buf, st2) = malloc (Bytes (strlen s + 1)) st1 in
          bindf (set_value new_tail buf st2) (\<lambda>st3.
          bindf (get_value st3 new_tail) (\<lambda>v.
          bindf (strncpy v s (strlen s) st3) (\<lambda>st4.
          bindf (set_char v (strlen s) NUL st4) (\<lambda>st5.
          bindf (list_add_tail new_tail head st5) (\<lambda>st6.
          Inr (True, st6)))))))"

subsection \<open>\<^verbatim>\<open>q_remove_head\<close>, \<^verbatim>\<open>q_remove_tail\<close>, \<^verbatim>\<open>q_release_element\<close>\<close>

text \<open>
  \<open>bufsize\<close> is a \<^verbatim>\<open>size_t\<close>, taken as 64 bits wide: \<open>bufsize - 1\<close> wraps around at
  \<open>bufsize = 0\<close>. The output buffer \<open>sp\<close> is a \<open>Chars\<close> block of the heap.
\<close>

definition copy_out :: "addr \<Rightarrow> addr \<Rightarrow> 64 word \<Rightarrow> state \<Rightarrow> fault + state" where
  "copy_out sp e bufsize s =
     (if sp \<noteq> NULL then
        bindf (get_value s e) (\<lambda>v.
        bindf (get_chars s v) (\<lambda>src.
        bindf (strncpy sp src (unat (bufsize - 1)) s) (\<lambda>s1.
        set_char sp (unat (bufsize - 1)) NUL s1)))
      else Inr s)"

definition q_remove_head :: "addr \<Rightarrow> addr \<Rightarrow> 64 word \<Rightarrow> state \<Rightarrow> fault + addr \<times> state" where
  "q_remove_head head sp bufsize s =
     (if head = NULL then Inr (NULL, s)
      else
        bindf (list_empty s head) (\<lambda>e.
          if e then Inr (NULL, s)
          else
            bindf (get_next s head) (\<lambda>head_element.
            bindf (list_del_init head_element s) (\<lambda>s1.
            bindf (copy_out sp head_element bufsize s1) (\<lambda>s2.
            Inr (head_element, s2))))))"

definition q_remove_tail :: "addr \<Rightarrow> addr \<Rightarrow> 64 word \<Rightarrow> state \<Rightarrow> fault + addr \<times> state" where
  "q_remove_tail head sp bufsize s =
     (if head = NULL then Inr (NULL, s)
      else
        bindf (list_empty s head) (\<lambda>e.
          if e then Inr (NULL, s)
          else
            bindf (get_prev s head) (\<lambda>tail_element.
            bindf (list_del_init tail_element s) (\<lambda>s1.
            bindf (copy_out sp tail_element bufsize s1) (\<lambda>s2.
            Inr (tail_element, s2))))))"

definition q_release_element :: "addr \<Rightarrow> state \<Rightarrow> fault + state" where
  "q_release_element e s =
     bindf (get_value s e) (\<lambda>v.
     bindf (free v s) (\<lambda>s1.
     free e s1))"

subsection \<open>\<^verbatim>\<open>q_free\<close> and \<^verbatim>\<open>q_size\<close>\<close>

text \<open>
  The loops of \<^verbatim>\<open>queue.c\<close> follow pointers, and on a heap that is not a well-formed
  queue they need not stop. Each loop is a partial function: \<open>None\<close> is a loop that
  runs forever, \<open>Some (Inl e)\<close> a crash, \<open>Some (Inr r)\<close> a normal return.

  \<^verbatim>\<open>list_for_each_entry_safe (to_free, next_to_free, l, list)\<close> keeps the successor of
  the current entry in \<open>next_to_free\<close>, read before the body releases the entry.
\<close>

partial_function (option) q_free_loop ::
  "addr \<Rightarrow> addr \<Rightarrow> addr \<Rightarrow> state \<Rightarrow> (fault + state) option" where
  "q_free_loop l to_free next_to_free s =
     (if to_free \<noteq> l then
        (case q_release_element to_free s of
           Inl e \<Rightarrow> Some (Inl e)
         | Inr s1 \<Rightarrow>
            (case get_next s1 next_to_free of
               Inl e \<Rightarrow> Some (Inl e)
             | Inr n \<Rightarrow> q_free_loop l next_to_free n s1))
      else Some (Inr s))"

definition q_free :: "addr \<Rightarrow> state \<Rightarrow> (fault + state) option" where
  "q_free l s =
     (if l = NULL then Some (Inr s)
      else
        (case get_next s l of
           Inl e \<Rightarrow> Some (Inl e)
         | Inr to_free \<Rightarrow>
            (case get_next s to_free of
               Inl e \<Rightarrow> Some (Inl e)
             | Inr next_to_free \<Rightarrow>
                (case q_free_loop l to_free next_to_free s of
                   None \<Rightarrow> None
                 | Some (Inl e) \<Rightarrow> Some (Inl e)
                 | Some (Inr s1) \<Rightarrow> Some (free l s1)))))"

text \<open>
  \<open>num\<close> is a C \<^verbatim>\<open>int\<close>; the count is kept as an unbounded integer, which agrees
  with the code below \<open>2^31\<close> elements.
\<close>

partial_function (option) q_size_loop ::
  "addr \<Rightarrow> addr \<Rightarrow> int \<Rightarrow> state \<Rightarrow> (fault + int) option" where
  "q_size_loop head running num s =
     (if running \<noteq> head then
        (case get_next s running of
           Inl e \<Rightarrow> Some (Inl e)
         | Inr n \<Rightarrow> q_size_loop head n (num + 1) s)
      else Some (Inr num))"

definition q_size :: "addr \<Rightarrow> state \<Rightarrow> (fault + int) option" where
  "q_size head s =
     (if head = NULL then Some (Inr 0)
      else
        (case list_empty s head of
           Inl e \<Rightarrow> Some (Inl e)
         | Inr True \<Rightarrow> Some (Inr 0)
         | Inr False \<Rightarrow>
            (case get_next s head of
               Inl e \<Rightarrow> Some (Inl e)
             | Inr running \<Rightarrow> q_size_loop head running 0 s)))"

subsection \<open>\<^verbatim>\<open>q_delete_mid\<close>\<close>

text \<open>
  The loop condition \<^verbatim>\<open>second != head && second->next != head\<close> short-circuits:
  \<^verbatim>\<open>second->next\<close> is read only when \<^verbatim>\<open>second != head\<close>.
\<close>

partial_function (option) q_delete_mid_loop ::
  "addr \<Rightarrow> addr \<Rightarrow> addr \<Rightarrow> state \<Rightarrow> (fault + addr) option" where
  "q_delete_mid_loop head first second s =
     (if second = head then Some (Inr first)
      else
        (case get_next s second of
           Inl e \<Rightarrow> Some (Inl e)
         | Inr sn \<Rightarrow>
            if sn = head then Some (Inr first)
            else
              (case get_next s first of
                 Inl e \<Rightarrow> Some (Inl e)
               | Inr first' \<Rightarrow>
                  (case get_next s sn of
                     Inl e \<Rightarrow> Some (Inl e)
                   | Inr second' \<Rightarrow> q_delete_mid_loop head first' second' s))))"

definition q_delete_mid :: "addr \<Rightarrow> state \<Rightarrow> (fault + bool \<times> state) option" where
  "q_delete_mid head s =
     (if head = NULL then Some (Inr (False, s))
      else
        (case list_empty s head of
           Inl e \<Rightarrow> Some (Inl e)
         | Inr True \<Rightarrow> Some (Inr (False, s))
         | Inr False \<Rightarrow>
            (case get_next s head of
               Inl e \<Rightarrow> Some (Inl e)
             | Inr hn \<Rightarrow>
                (case q_delete_mid_loop head hn hn s of
                   None \<Rightarrow> None
                 | Some (Inl e) \<Rightarrow> Some (Inl e)
                 | Some (Inr first) \<Rightarrow>
                     Some (bindf (list_del first s) (\<lambda>s1.
                           bindf (q_release_element first s1) (\<lambda>s2.
                           Inr (True, s2))))))))"

subsection \<open>\<^verbatim>\<open>q_delete_dup\<close>\<close>

text \<open>
  The test \<^verbatim>\<open>list_entry(first, element_t, list) != list_entry(second, element_t, list)\<close>
  compares two pointers shifted by the same offset: it is \<open>first \<noteq> second\<close>. No string
  is read.
\<close>

partial_function (option) q_delete_dup_loop ::
  "addr \<Rightarrow> addr \<Rightarrow> addr \<Rightarrow> state \<Rightarrow> (fault + state) option" where
  "q_delete_dup_loop head first second s =
     (case get_next s second of
        Inl e \<Rightarrow> Some (Inl e)
      | Inr sn \<Rightarrow>
         if sn \<noteq> head then
           (case (if first \<noteq> second then set_next first second s else Inr s) of
              Inl e \<Rightarrow> Some (Inl e)
            | Inr s1 \<Rightarrow>
               (case get_next s1 second of
                  Inl e \<Rightarrow> Some (Inl e)
                | Inr second' \<Rightarrow> q_delete_dup_loop head first second' s1))
         else Some (Inr s))"

definition q_delete_dup :: "addr \<Rightarrow> state \<Rightarrow> (fault + bool \<times> state) option" where
  "q_delete_dup head s =
     (if head = NULL then Some (Inr (False, s))
      else
        (case q_delete_dup_loop head head head s of
           None \<Rightarrow> None
         | Some (Inl e) \<Rightarrow> Some (Inl e)
         | Some (Inr s1) \<Rightarrow> Some (Inr (True, s1))))"

subsection \<open>\<^verbatim>\<open>q_swap\<close>\<close>

text \<open>The body of the loop: the six pointer writes and the advance of \<open>first\<close>.\<close>

definition q_swap_body :: "addr \<Rightarrow> state \<Rightarrow> fault + addr \<times> state" where
  "q_swap_body first s =
     bindf (get_next s first) (\<lambda>second.
     bindf (get_next s second) (\<lambda>sn.
     bindf (set_next first sn s) (\<lambda>s1.
     bindf (get_next s1 first) (\<lambda>fn.
     bindf (set_prev fn first s1) (\<lambda>s2.
     bindf (get_prev s2 first) (\<lambda>fp.
     bindf (set_prev second fp s2) (\<lambda>s3.
     bindf (get_prev s3 second) (\<lambda>sp.
     bindf (set_next sp second s3) (\<lambda>s4.
     bindf (set_next second first s4) (\<lambda>s5.
     bindf (set_prev first second s5) (\<lambda>s6.
     bindf (get_next s6 first) (\<lambda>first'.
     Inr (first', s6)))))))))))))"

partial_function (option) q_swap_loop ::
  "addr \<Rightarrow> addr \<Rightarrow> state \<Rightarrow> (fault + state) option" where
  "q_swap_loop head first s =
     (if first = head then Some (Inr s)
      else
        (case get_next s first of
           Inl e \<Rightarrow> Some (Inl e)
         | Inr fn \<Rightarrow>
            if fn = head then Some (Inr s)
            else
              (case q_swap_body first s of
                 Inl e \<Rightarrow> Some (Inl e)
               | Inr (first', s1) \<Rightarrow> q_swap_loop head first' s1)))"

definition q_swap :: "addr \<Rightarrow> state \<Rightarrow> (fault + state) option" where
  "q_swap head s =
     (case get_next s head of
        Inl e \<Rightarrow> Some (Inl e)
      | Inr first \<Rightarrow> q_swap_loop head first s)"

subsection \<open>\<^verbatim>\<open>q_reverse\<close>\<close>

text \<open>
  \<^verbatim>\<open>list_for_each_safe (running, safe, head)\<close> starts with \<open>running = head->next\<close> and
  \<open>safe = running->next\<close>, and steps with \<open>running = safe\<close>, \<open>safe = running->next\<close>.
  The two assignments after the loop use the values \<open>running\<close> and \<open>safe\<close> have at its
  exit.
\<close>

definition q_reverse_body :: "addr \<Rightarrow> addr \<Rightarrow> state \<Rightarrow> fault + state" where
  "q_reverse_body running safe s =
     bindf (get_prev s running) (\<lambda>rp.
     bindf (set_next running rp s) (\<lambda>s1.
     set_prev running safe s1))"

partial_function (option) q_reverse_loop ::
  "addr \<Rightarrow> addr \<Rightarrow> addr \<Rightarrow> state \<Rightarrow> (fault + addr \<times> addr \<times> state) option" where
  "q_reverse_loop head running safe s =
     (if running \<noteq> head then
        (case q_reverse_body running safe s of
           Inl e \<Rightarrow> Some (Inl e)
         | Inr s1 \<Rightarrow>
            (case get_next s1 safe of
               Inl e \<Rightarrow> Some (Inl e)
             | Inr safe' \<Rightarrow> q_reverse_loop head safe safe' s1))
      else Some (Inr (running, safe, s)))"

definition q_reverse :: "addr \<Rightarrow> state \<Rightarrow> (fault + state) option" where
  "q_reverse head s =
     (case get_next s head of
        Inl e \<Rightarrow> Some (Inl e)
      | Inr hn \<Rightarrow>
         if hn = NULL then Some (Inr s)
         else
           (case get_next s hn of
              Inl e \<Rightarrow> Some (Inl e)
            | Inr safe \<Rightarrow>
               (case q_reverse_loop head hn safe s of
                  None \<Rightarrow> None
                | Some (Inl e) \<Rightarrow> Some (Inl e)
                | Some (Inr (running, safe', s1)) \<Rightarrow>
                    Some (q_reverse_body running safe' s1))))"

subsection \<open>\<^verbatim>\<open>merge\<close>, \<^verbatim>\<open>merge_sort\<close>, \<^verbatim>\<open>q_sort\<close>\<close>

text \<open>
  \<^verbatim>\<open>struct list_head **ptr\<close> points either at the local variable \<open>new_head\<close> or at the
  \<open>next\<close> field of a node.
\<close>

datatype loc = NewHead | NextField addr

definition store :: "loc \<Rightarrow> addr \<Rightarrow> addr \<times> state \<Rightarrow> fault + addr \<times> state" where
  "store ptr x hs =
     (case ptr of
        NewHead \<Rightarrow> Inr (x, snd hs)
      | NextField a \<Rightarrow> bindf (set_next a x (snd hs)) (\<lambda>s1. Inr (fst hs, s1)))"

definition load :: "loc \<Rightarrow> addr \<times> state \<Rightarrow> fault + addr" where
  "load ptr hs =
     (case ptr of
        NewHead \<Rightarrow> Inr (fst hs)
      | NextField a \<Rightarrow> get_next (snd hs) a)"

text \<open>\<^verbatim>\<open>strcmp(first_entry->value, second_entry->value)\<close> on two nodes.\<close>

definition cmp_entries :: "state \<Rightarrow> addr \<Rightarrow> addr \<Rightarrow> fault + int" where
  "cmp_entries s first second =
     bindf (get_value s first) (\<lambda>fv.
     bindf (get_value s second) (\<lambda>sv.
     bindf (get_chars s fv) (\<lambda>fb.
     bindf (get_chars s sv) (\<lambda>sb.
     Inr (strcmp fb sb)))))"

text \<open>
  One round of the \<^verbatim>\<open>for\<close> loop of \<^verbatim>\<open>merge\<close>: the body, then the step
  \<^verbatim>\<open>ptr = &(*ptr)->next\<close>.
\<close>

definition merge_body ::
  "addr \<Rightarrow> addr \<Rightarrow> addr \<Rightarrow> loc \<Rightarrow> state \<Rightarrow> fault + addr \<times> addr \<times> addr \<times> loc \<times> state" where
  "merge_body first second new_head ptr s =
     bindf (cmp_entries s first second) (\<lambda>c.
       if c < 0 then
         bindf (store ptr first (new_head, s)) (\<lambda>(new_head1, s1).
         bindf (get_next s1 first) (\<lambda>first'.
         bindf (load ptr (new_head1, s1)) (\<lambda>p.
         Inr (first', second, new_head1, NextField p, s1))))
       else
         bindf (store ptr second (new_head, s)) (\<lambda>(new_head1, s1).
         bindf (get_next s1 second) (\<lambda>second'.
         bindf (load ptr (new_head1, s1)) (\<lambda>p.
         Inr (first, second', new_head1, NextField p, s1)))))"

partial_function (option) merge_loop ::
  "addr \<Rightarrow> addr \<Rightarrow> addr \<Rightarrow> loc \<Rightarrow> state \<Rightarrow> (fault + addr \<times> state) option" where
  "merge_loop first second new_head ptr s =
     (if first \<noteq> NULL \<and> second \<noteq> NULL then
        (case merge_body first second new_head ptr s of
           Inl e \<Rightarrow> Some (Inl e)
         | Inr (first', second', new_head1, ptr', s1) \<Rightarrow>
             merge_loop first' second' new_head1 ptr' s1)
      else Some (store ptr (first OR second) (new_head, s)))"

definition merge :: "addr \<Rightarrow> addr \<Rightarrow> state \<Rightarrow> (fault + addr \<times> state) option" where
  "merge first second s = merge_loop first second NULL NewHead s"

partial_function (option) merge_sort_loop ::
  "addr \<Rightarrow> addr \<Rightarrow> state \<Rightarrow> (fault + addr) option" where
  "merge_sort_loop first second s =
     (if second = NULL then Some (Inr first)
      else
        (case get_next s second of
           Inl e \<Rightarrow> Some (Inl e)
         | Inr sn \<Rightarrow>
            if sn = NULL then Some (Inr first)
            else
              (case get_next s first of
                 Inl e \<Rightarrow> Some (Inl e)
               | Inr first' \<Rightarrow>
                  (case get_next s sn of
                     Inl e \<Rightarrow> Some (Inl e)
                   | Inr second' \<Rightarrow> merge_sort_loop first' second' s))))"

text \<open>
  C leaves the order of the two recursive calls in
  \<^verbatim>\<open>merge(merge_sort(head), merge_sort(middle))\<close> open; the model runs the left one
  first. After \<^verbatim>\<open>first->next = NULL\<close> the two chains share no node.
\<close>

definition merge_sort_split :: "addr \<Rightarrow> state \<Rightarrow> fault + addr \<times> state" where
  "merge_sort_split first s =
     bindf (get_next s first) (\<lambda>middle.
     bindf (set_next first NULL s) (\<lambda>s1.
     Inr (middle, s1)))"

partial_function (option) merge_sort ::
  "addr \<Rightarrow> state \<Rightarrow> (fault + addr \<times> state) option" where
  "merge_sort head s =
     (if head = NULL then Some (Inr (head, s))
      else
        (case get_next s head of
           Inl e \<Rightarrow> Some (Inl e)
         | Inr hn \<Rightarrow>
            if hn = NULL then Some (Inr (head, s))
            else
              (case merge_sort_loop head hn s of
                 None \<Rightarrow> None
               | Some (Inl e) \<Rightarrow> Some (Inl e)
               | Some (Inr first) \<Rightarrow>
                  (case merge_sort_split first s of
                     Inl e \<Rightarrow> Some (Inl e)
                   | Inr (middle, s1) \<Rightarrow>
                      Option.bind (merge_sort head s1) (\<lambda>r1.
                        case r1 of
                          Inl e \<Rightarrow> Some (Inl e)
                        | Inr (a, s2) \<Rightarrow>
                           Option.bind (merge_sort middle s2) (\<lambda>r2.
                             case r2 of
                               Inl e \<Rightarrow> Some (Inl e)
                             | Inr (b, s3) \<Rightarrow> merge a b s3))))))"

partial_function (option) q_sort_loop ::
  "addr \<Rightarrow> addr \<Rightarrow> state \<Rightarrow> (fault + addr \<times> state) option" where
  "q_sort_loop first second s =
     (if second \<noteq> NULL then
        (case set_prev second first s of
           Inl e \<Rightarrow> Some (Inl e)
         | Inr s1 \<Rightarrow>
            (case get_next s1 first of
               Inl e \<Rightarrow> Some (Inl e)
             | Inr first' \<Rightarrow>
                (case get_next s1 second of
                   Inl e \<Rightarrow> Some (Inl e)
                 | Inr second' \<Rightarrow> q_sort_loop first' second' s1)))
      else Some (Inr (first, s)))"

text \<open>The part of \<^verbatim>\<open>q_sort\<close> before the call of \<^verbatim>\<open>merge_sort\<close>, and the part after it.\<close>

definition q_sort_cut :: "addr \<Rightarrow> state \<Rightarrow> fault + addr \<times> state" where
  "q_sort_cut head s =
     bindf (get_prev s head) (\<lambda>hp.
     bindf (set_next hp NULL s) (\<lambda>s1.
     bindf (get_next s1 head) (\<lambda>hn.
     Inr (hn, s1))))"

definition q_sort_close :: "addr \<Rightarrow> addr \<Rightarrow> state \<Rightarrow> fault + state" where
  "q_sort_close head first s =
     bindf (set_next first head s) (\<lambda>s1.
     set_prev head first s1)"

definition q_sort :: "addr \<Rightarrow> state \<Rightarrow> (fault + state) option" where
  "q_sort head s =
     (if head = NULL then Some (Inr s)
      else
        (case list_empty s head of
           Inl e \<Rightarrow> Some (Inl e)
         | Inr True \<Rightarrow> Some (Inr s)
         | Inr False \<Rightarrow>
            (case list_is_singular s head of
               Inl e \<Rightarrow> Some (Inl e)
             | Inr True \<Rightarrow> Some (Inr s)
             | Inr False \<Rightarrow>
                (case q_sort_cut head s of
                   Inl e \<Rightarrow> Some (Inl e)
                 | Inr (hn, s1) \<Rightarrow>
                    (case merge_sort hn s1 of
                       None \<Rightarrow> None
                     | Some (Inl e) \<Rightarrow> Some (Inl e)
                     | Some (Inr (r, s2)) \<Rightarrow>
                        (case set_next head r s2 of
                           Inl e \<Rightarrow> Some (Inl e)
                         | Inr s3 \<Rightarrow>
                            (case get_next s3 head of
                               Inl e \<Rightarrow> Some (Inl e)
                             | Inr second \<Rightarrow>
                                (case q_sort_loop head second s3 of
                                   None \<Rightarrow> None
                                 | Some (Inl e) \<Rightarrow> Some (Inl e)
                                 | Some (Inr (first, s4)) \<Rightarrow>
                                     Some (q_sort_close head first s4)))))))))"

section \<open>Specification vocabulary\<close>

text \<open>
  A node is an address that holds link fields. \<open>put_next\<close> and \<open>put_prev\<close> are the
  total versions of the two writes; they agree with \<open>set_next\<close> and \<open>set_prev\<close> on
  nodes.
\<close>

definition is_node :: "state \<Rightarrow> addr \<Rightarrow> bool" where
  "is_node s p = (case get_next s p of Inr n \<Rightarrow> True | Inl e \<Rightarrow> False)"

definition put_next :: "addr \<Rightarrow> addr \<Rightarrow> state \<Rightarrow> state" where
  "put_next p x s = (case set_next p x s of Inr s1 \<Rightarrow> s1 | Inl e \<Rightarrow> s)"

definition put_prev :: "addr \<Rightarrow> addr \<Rightarrow> state \<Rightarrow> state" where
  "put_prev p x s = (case set_prev p x s of Inr s1 \<Rightarrow> s1 | Inl e \<Rightarrow> s)"

definition is_list_head :: "state \<Rightarrow> addr \<Rightarrow> bool" where
  "is_list_head s p =
     (p \<noteq> NULL \<and> (case heap s p of Some (ListHead n q) \<Rightarrow> True | _ \<Rightarrow> False))"

text \<open>
  A well-formed element: an \<open>element_t\<close> whose \<open>value\<close> points to a NUL-terminated
  buffer. \<open>elem_string\<close> is the string it stores.
\<close>

definition elem_ok :: "state \<Rightarrow> addr \<Rightarrow> bool" where
  "elem_ok s p =
     (case get_value s p of
        Inl e \<Rightarrow> False
      | Inr v \<Rightarrow> (case get_chars s v of Inl e \<Rightarrow> False | Inr b \<Rightarrow> NUL \<in> set b))"

definition value_ptr :: "state \<Rightarrow> addr \<Rightarrow> addr" where
  "value_ptr s p = (case get_value s p of Inr v \<Rightarrow> v | Inl e \<Rightarrow> NULL)"

definition elem_string :: "state \<Rightarrow> addr \<Rightarrow> char list" where
  "elem_string s p =
     (case get_chars s (value_ptr s p) of Inr b \<Rightarrow> cstr b | Inl e \<Rightarrow> [])"

text \<open>
  The queue invariant of the spec: the forward chain from the sentinel visits the
  elements \<open>xs\<close> in order and returns to the sentinel, each backward pointer is the
  inverse of a forward pointer, every element owns its own string buffer.
\<close>

definition link :: "state \<Rightarrow> addr \<Rightarrow> addr \<Rightarrow> bool" where
  "link s a b = (get_next s a = Inr b \<and> get_prev s b = Inr a)"

definition queue :: "state \<Rightarrow> addr \<Rightarrow> addr list \<Rightarrow> bool" where
  "queue s head xs =
     (is_list_head s head \<and> distinct (head # xs) \<and>
      successively (link s) (head # xs @ [head]) \<and>
      list_all (elem_ok s) xs \<and> distinct (map (value_ptr s) xs))"

text \<open>
  The effect of \<open>q_swap\<close> on the order of the elements, in the spec's words: each
  adjacent pair is exchanged and a trailing unpaired element stays in place.
\<close>

fun swap_pairs_spec :: "'a list \<Rightarrow> 'a list" where
  "swap_pairs_spec [] = []"
| "swap_pairs_spec [x] = [x]"
| "swap_pairs_spec (x # y # r) = y # x # swap_pairs_spec r"

text \<open>
  A singly-linked chain ended by \<open>NULL\<close>, the shape \<open>q_sort\<close> works on between cutting
  the circle and closing it again.
\<close>

fun chain :: "state \<Rightarrow> addr \<Rightarrow> addr list \<Rightarrow> bool" where
  "chain s p [] = (p = NULL)"
| "chain s p (x # xs) =
     (p = x \<and> (case get_next s x of Inr n \<Rightarrow> chain s n xs | Inl e \<Rightarrow> False))"

text \<open>
  \<open>link_frame S s s'\<close>: from \<open>s\<close> to \<open>s'\<close> nothing was allocated or freed, no string
  and no \<open>value\<close> field changed, and objects outside \<open>S\<close> are untouched.
\<close>

definition link_frame :: "addr set \<Rightarrow> state \<Rightarrow> state \<Rightarrow> bool" where
  "link_frame S s s' =
     ((\<forall>p. p \<notin> S \<longrightarrow> heap s' p = heap s p) \<and>
      (\<forall>p. is_node s' p = is_node s p) \<and>
      get_value s' = get_value s \<and> get_chars s' = get_chars s \<and>
      dom (heap s') = dom (heap s) \<and> alloc s' = alloc s)"

text \<open>The node a \<open>loc\<close> lies in, if any.\<close>

fun loc_nodes :: "loc \<Rightarrow> addr set" where
  "loc_nodes NewHead = {}"
| "loc_nodes (NextField a) = {a}"

text \<open>
  The order \<open>merge\<close> and \<open>merge_sort\<close> compute, on lists of nodes with the string of
  each node given by \<open>key\<close>: \<open>merge_list\<close> follows the loop of \<open>merge\<close> (the first chain
  gives its head only when \<open>strcmp\<close> is negative), \<open>msort_list\<close> follows \<open>merge_sort\<close>
  (the walk of \<open>first\<close> and \<open>second\<close> leaves \<open>(n + 1) div 2\<close> nodes in the left half).
\<close>

fun merge_list :: "('a \<Rightarrow> char list) \<Rightarrow> 'a list \<Rightarrow> 'a list \<Rightarrow> 'a list" where
  "merge_list key [] ys = ys"
| "merge_list key (x # xs) [] = x # xs"
| "merge_list key (x # xs) (y # ys) =
     (if strcmp_bytes (key x) (key y) < 0 then x # merge_list key xs (y # ys)
      else y # merge_list key (x # xs) ys)"

function msort_list :: "('a \<Rightarrow> char list) \<Rightarrow> 'a list \<Rightarrow> 'a list" where
  "msort_list key xs =
     (if length xs \<le> 1 then xs
      else merge_list key (msort_list key (take ((length xs + 1) div 2) xs))
                          (msort_list key (drop ((length xs + 1) div 2) xs)))"
  by pat_completeness auto
termination
  by (relation "measure (\<lambda>(key, xs). length xs)") auto

text \<open>The order of strings that \<open>strcmp\<close> induces.\<close>

definition str_le :: "char list \<Rightarrow> char list \<Rightarrow> bool" where
  "str_le a b = (strcmp_bytes a b \<le> 0)"

section \<open>Example states\<close>

text \<open>
  An empty queue at address 1 whose allocator grants one more block and then fails,
  one whose allocator grants the blocks 2 and 3 and which has a caller's buffer of
  four bytes at address 20, the queues \<open>["A", \<dots>, "E"]\<close> and
  \<open>["A", \<dots>, "F"]\<close>, the queue \<open>["c", "a", "b"]\<close>, and the sorted queues \<open>["a", "a"]\<close> and \<open>["a", "b", "b", "c"]\<close>; \<open>tie_chains\<close> holds two
  one-element chains with equal strings. The sentinel is at
  address 1, the elements follow from address 2 and their strings from address 12.
\<close>

definition garbage :: "addr \<Rightarrow> block" where
  "garbage a = \<lparr>base = a, junk_ptr = (\<lambda>i. 99), junk_char = (\<lambda>i. CHR ''?'')\<rparr>"

definition starved_queue :: state where
  "starved_queue = \<lparr>heap = [1 \<mapsto> ListHead 1 1], alloc = [garbage 2, garbage NULL]\<rparr>"

definition fresh_queue :: state where
  "fresh_queue = \<lparr>heap = [1 \<mapsto> ListHead 1 1, 20 \<mapsto> Chars ''zzzz''],
                   alloc = [garbage 2, garbage 3]\<rparr>"

definition five_queue :: state where
  "five_queue = \<lparr>heap =
      [1 \<mapsto> ListHead 2 6,
       2 \<mapsto> Element 12 3 1, 3 \<mapsto> Element 13 4 2, 4 \<mapsto> Element 14 5 3,
       5 \<mapsto> Element 15 6 4, 6 \<mapsto> Element 16 1 5,
       12 \<mapsto> Chars (''A'' @ [NUL]), 13 \<mapsto> Chars (''B'' @ [NUL]),
       14 \<mapsto> Chars (''C'' @ [NUL]), 15 \<mapsto> Chars (''D'' @ [NUL]),
       16 \<mapsto> Chars (''E'' @ [NUL])],
     alloc = []\<rparr>"

definition six_queue :: state where
  "six_queue = \<lparr>heap =
      [1 \<mapsto> ListHead 2 7,
       2 \<mapsto> Element 12 3 1, 3 \<mapsto> Element 13 4 2, 4 \<mapsto> Element 14 5 3,
       5 \<mapsto> Element 15 6 4, 6 \<mapsto> Element 16 7 5, 7 \<mapsto> Element 17 1 6,
       12 \<mapsto> Chars (''A'' @ [NUL]), 13 \<mapsto> Chars (''B'' @ [NUL]),
       14 \<mapsto> Chars (''C'' @ [NUL]), 15 \<mapsto> Chars (''D'' @ [NUL]),
       16 \<mapsto> Chars (''E'' @ [NUL]), 17 \<mapsto> Chars (''F'' @ [NUL])],
     alloc = []\<rparr>"

definition tie_queue :: state where
  "tie_queue = \<lparr>heap =
      [1 \<mapsto> ListHead 2 3,
       2 \<mapsto> Element 12 3 1, 3 \<mapsto> Element 13 1 2,
       12 \<mapsto> Chars (''a'' @ [NUL]), 13 \<mapsto> Chars (''a'' @ [NUL])],
     alloc = []\<rparr>"

definition tie_chains :: state where
  "tie_chains = \<lparr>heap =
      [2 \<mapsto> Element 12 NULL NULL, 3 \<mapsto> Element 13 NULL NULL,
       12 \<mapsto> Chars (''a'' @ [NUL]), 13 \<mapsto> Chars (''a'' @ [NUL])],
     alloc = []\<rparr>"

definition unsorted_queue :: state where
  "unsorted_queue = \<lparr>heap =
      [1 \<mapsto> ListHead 2 4,
       2 \<mapsto> Element 12 3 1, 3 \<mapsto> Element 13 4 2, 4 \<mapsto> Element 14 1 3,
       12 \<mapsto> Chars (''c'' @ [NUL]), 13 \<mapsto> Chars (''a'' @ [NUL]),
       14 \<mapsto> Chars (''b'' @ [NUL])],
     alloc = []\<rparr>"

definition dup_queue :: state where
  "dup_queue = \<lparr>heap =
      [1 \<mapsto> ListHead 2 5,
       2 \<mapsto> Element 12 3 1, 3 \<mapsto> Element 13 4 2,
       4 \<mapsto> Element 14 5 3, 5 \<mapsto> Element 15 1 4,
       12 \<mapsto> Chars (''a'' @ [NUL]), 13 \<mapsto> Chars (''b'' @ [NUL]),
       14 \<mapsto> Chars (''b'' @ [NUL]), 15 \<mapsto> Chars (''c'' @ [NUL])],
     alloc = []\<rparr>"

lemma bindf_simps [simp]: "bindf (Inl e) f = Inl e" "bindf (Inr x) f = f x"
  by (simp_all add: bindf_def)

lemma is_node_nonnull: "is_node s p \<Longrightarrow> p \<noteq> NULL"
  by (auto simp: is_node_def get_next_def split: if_splits)

lemma is_node_cases:
  "is_node s p \<longleftrightarrow> p \<noteq> NULL \<and> ((\<exists>n q. heap s p = Some (ListHead n q)) \<or> (\<exists>v n q. heap s p = Some (Element v n q)))"
  by (auto simp: is_node_def get_next_def split: option.splits obj.splits)

lemma get_next_is_node: "get_next s p = Inr n \<Longrightarrow> is_node s p"
  by (simp add: is_node_def)

lemma get_prev_is_node: "get_prev s p = Inr n \<Longrightarrow> is_node s p"
  by (auto simp: is_node_cases get_prev_def split: if_splits option.splits obj.splits)

lemma get_value_is_node: "get_value s p = Inr n \<Longrightarrow> is_node s p"
  by (auto simp: is_node_cases get_value_def split: if_splits option.splits obj.splits)

lemma is_node_get_next: "is_node s p \<Longrightarrow> \<exists>n. get_next s p = Inr n"
  by (auto simp: is_node_cases get_next_def)

lemma is_node_get_prev: "is_node s p \<Longrightarrow> \<exists>n. get_prev s p = Inr n"
  by (auto simp: is_node_cases get_prev_def)

lemma set_next_put: "is_node s p \<Longrightarrow> set_next p x s = Inr (put_next p x s)"
  by (auto simp: is_node_cases put_next_def set_next_def)

lemma set_prev_put: "is_node s p \<Longrightarrow> set_prev p x s = Inr (put_prev p x s)"
  by (auto simp: is_node_cases put_prev_def set_prev_def)

lemma is_node_put_next [simp]: "is_node (put_next p x s) q = is_node s q"
  by (auto simp: is_node_cases put_next_def set_next_def split: option.splits obj.splits)

lemma is_node_put_prev [simp]: "is_node (put_prev p x s) q = is_node s q"
  by (auto simp: is_node_cases put_prev_def set_prev_def split: option.splits obj.splits)

lemma get_next_put_next:
  "is_node s p \<Longrightarrow> get_next (put_next p x s) q = (if q = p then Inr x else get_next s q)"
  by (auto simp: is_node_cases put_next_def set_next_def get_next_def)

lemma get_next_put_prev [simp]: "get_next (put_prev p x s) q = get_next s q"
  by (auto simp: put_prev_def set_prev_def get_next_def split: option.splits obj.splits)

lemma get_prev_put_prev:
  "is_node s p \<Longrightarrow> get_prev (put_prev p x s) q = (if q = p then Inr x else get_prev s q)"
  by (auto simp: is_node_cases put_prev_def set_prev_def get_prev_def)

lemma get_prev_put_next [simp]: "get_prev (put_next p x s) q = get_prev s q"
  by (auto simp: put_next_def set_next_def get_prev_def split: option.splits obj.splits)

lemma get_value_put_next [simp]: "get_value (put_next p x s) q = get_value s q"
  by (auto simp: put_next_def set_next_def get_value_def split: option.splits obj.splits)

lemma get_value_put_prev [simp]: "get_value (put_prev p x s) q = get_value s q"
  by (auto simp: put_prev_def set_prev_def get_value_def split: option.splits obj.splits)

lemma get_chars_put_next [simp]: "get_chars (put_next p x s) q = get_chars s q"
  by (auto simp: put_next_def set_next_def get_chars_def split: option.splits obj.splits)

lemma get_chars_put_prev [simp]: "get_chars (put_prev p x s) q = get_chars s q"
  by (auto simp: put_prev_def set_prev_def get_chars_def split: option.splits obj.splits)

lemma alloc_put_next [simp]: "alloc (put_next p x s) = alloc s"
  by (auto simp: put_next_def set_next_def split: option.splits obj.splits)

lemma alloc_put_prev [simp]: "alloc (put_prev p x s) = alloc s"
  by (auto simp: put_prev_def set_prev_def split: option.splits obj.splits)

lemma dom_put_next [simp]: "dom (heap (put_next p x s)) = dom (heap s)"
  by (auto simp: put_next_def set_next_def split: option.splits obj.splits if_splits)

lemma dom_put_prev [simp]: "dom (heap (put_prev p x s)) = dom (heap s)"
  by (auto simp: put_prev_def set_prev_def split: option.splits obj.splits if_splits)

lemma is_list_head_put_next [simp]: "is_list_head (put_next p x s) q = is_list_head s q"
  by (auto simp: is_list_head_def put_next_def set_next_def split: option.splits obj.splits)

lemma is_list_head_put_prev [simp]: "is_list_head (put_prev p x s) q = is_list_head s q"
  by (auto simp: is_list_head_def put_prev_def set_prev_def split: option.splits obj.splits)

lemma elem_ok_put_next [simp]: "elem_ok (put_next p x s) q = elem_ok s q"
  by (simp add: elem_ok_def split: sum.splits)

lemma elem_ok_put_prev [simp]: "elem_ok (put_prev p x s) q = elem_ok s q"
  by (simp add: elem_ok_def split: sum.splits)

lemma value_ptr_put_next [simp]: "value_ptr (put_next p x s) q = value_ptr s q"
  by (simp add: value_ptr_def)

lemma value_ptr_put_prev [simp]: "value_ptr (put_prev p x s) q = value_ptr s q"
  by (simp add: value_ptr_def)

lemma elem_string_put_next [simp]: "elem_string (put_next p x s) q = elem_string s q"
  by (simp add: elem_string_def)

lemma elem_string_put_prev [simp]: "elem_string (put_prev p x s) q = elem_string s q"
  by (simp add: elem_string_def)

lemma successively_link_cong:
  "\<forall>a\<in>set (butlast L). get_next s' a = get_next s a \<Longrightarrow>
   \<forall>b\<in>set (tl L). get_prev s' b = get_prev s b \<Longrightarrow>
   successively (link s') L = successively (link s) L"
proof (induction L rule: induct_list012)
  case (3 x y zs)
  then show ?case by (simp add: link_def)
qed simp_all

lemma link_is_node: "link s a b \<Longrightarrow> is_node s a \<and> is_node s b"
  by (auto simp: link_def dest: get_next_is_node get_prev_is_node)

lemma elem_okD:
  "elem_ok s p \<Longrightarrow> \<exists>v b. get_value s p = Inr v \<and> get_chars s v = Inr b \<and> NUL \<in> set b"
  by (simp add: elem_ok_def split: sum.splits)

lemma elem_ok_is_node: "elem_ok s p \<Longrightarrow> is_node s p"
  by (blast dest: elem_okD get_value_is_node)

lemma is_list_head_is_node: "is_list_head s p \<Longrightarrow> is_node s p"
  by (auto simp: is_list_head_def is_node_cases split: option.splits obj.splits)

lemma queue_is_node: "queue s head xs \<Longrightarrow> p \<in> set (head # xs) \<Longrightarrow> is_node s p"
  by (auto simp: queue_def list_all_iff intro: elem_ok_is_node is_list_head_is_node)

lemma queue_next_head: "queue s head xs \<Longrightarrow> get_next s head = Inr (hd (xs @ [head]))"
  by (cases xs) (auto simp: queue_def link_def)

lemma queue_prev_head: "queue s head xs \<Longrightarrow> get_prev s head = Inr (last (head # xs))"
  by (cases xs rule: rev_cases) (auto simp: queue_def link_def successively_append_iff successively_Cons)

lemma get_next_put_next_other: "q \<noteq> p \<Longrightarrow> get_next (put_next p x s) q = get_next s q"
  by (auto simp: put_next_def set_next_def get_next_def split: option.splits obj.splits)

lemma get_prev_put_prev_other: "q \<noteq> p \<Longrightarrow> get_prev (put_prev p x s) q = get_prev s q"
  by (auto simp: put_prev_def set_prev_def get_prev_def split: option.splits obj.splits)

lemma successively_mid2:
  "successively P (A @ p # n # B) \<longleftrightarrow> successively P (A @ [p]) \<and> P p n \<and> successively P (n # B)"
  by (cases B) (auto simp: successively_append_iff successively_Cons)

lemma successively_mid3:
  "successively P (A @ p # x # n # B) \<longleftrightarrow>
     successively P (A @ [p]) \<and> P p x \<and> P x n \<and> successively P (n # B)"
  by (cases B) (auto simp: successively_append_iff successively_Cons)

text \<open>Unlinking the node between p and n.\<close>

lemma unlink_links:
  assumes L: "successively (link s) (A @ [p, x, n] @ B)"
    and nx: "\<forall>q. q \<noteq> p \<longrightarrow> get_next s' q = get_next s q"
    and pv: "\<forall>q. q \<noteq> n \<longrightarrow> get_prev s' q = get_prev s q"
    and new: "get_next s' p = Inr n" "get_prev s' n = Inr p"
    and d: "p \<notin> set A" "n \<notin> set (tl (A @ [p]))" "p \<notin> set (butlast (n # B))" "n \<notin> set B"
  shows "successively (link s') (A @ [p, n] @ B)"
proof -
  from L have 1: "successively (link s) (A @ [p])" and 2: "successively (link s) (n # B)"
    by (simp_all add: successively_mid3)
  have "successively (link s') (A @ [p]) = successively (link s) (A @ [p])"
    by (rule successively_link_cong) (use d nx pv in auto)
  moreover have "successively (link s') (n # B) = successively (link s) (n # B)"
    by (rule successively_link_cong) (use d nx pv in auto)
  ultimately show ?thesis using 1 2 new by (simp add: successively_mid2 link_def)
qed

text \<open>Linking a new node between p and n.\<close>

lemma insert_links:
  assumes L: "successively (link s) (A @ [p, n] @ B)"
    and nx: "\<forall>q. q \<noteq> p \<and> q \<noteq> a \<longrightarrow> get_next s' q = get_next s q"
    and pv: "\<forall>q. q \<noteq> n \<and> q \<noteq> a \<longrightarrow> get_prev s' q = get_prev s q"
    and new: "get_next s' p = Inr a" "get_prev s' a = Inr p" "get_next s' a = Inr n" "get_prev s' n = Inr a"
    and d: "p \<notin> set A" "n \<notin> set (tl (A @ [p]))" "p \<notin> set (butlast (n # B))" "n \<notin> set B"
       "a \<notin> set A" "a \<notin> set B" "a \<noteq> p" "a \<noteq> n"
  shows "successively (link s') (A @ [p, a, n] @ B)"
proof -
  from L have 1: "successively (link s) (A @ [p])" and 2: "successively (link s) (n # B)"
    by (simp_all add: successively_mid2)
  have t: "set (tl (A @ [p])) \<subseteq> set A \<union> {p}"
    by (cases A) auto
  have b: "set (butlast (n # B)) \<subseteq> {n} \<union> set B"
    by (auto dest: in_set_butlastD)
  have "\<forall>q\<in>set (butlast (A @ [p])). q \<noteq> p \<and> q \<noteq> a" using d by auto
  moreover have "\<forall>q\<in>set (tl (A @ [p])). q \<noteq> n \<and> q \<noteq> a" using d t by blast
  ultimately have "successively (link s') (A @ [p]) = successively (link s) (A @ [p])"
    using nx pv by (intro successively_link_cong) blast+
  moreover
  have "\<forall>q\<in>set (butlast (n # B)). q \<noteq> p \<and> q \<noteq> a" using d b by blast
  moreover have "\<forall>q\<in>set (tl (n # B)). q \<noteq> n \<and> q \<noteq> a" using d by auto
  ultimately have "successively (link s') (n # B) = successively (link s) (n # B)"
    using nx pv by (intro successively_link_cong) blast+
  moreover note \<open>successively (link s') (A @ [p]) = successively (link s) (A @ [p])\<close>
  ultimately show ?thesis using 1 2 new by (simp add: successively_mid3 link_def)
qed

text \<open>The cycle of a queue, cut around one element.\<close>

lemma cycle_split3:
  "head # pre @ x # r @ [head] =
     butlast (head # pre) @ [last (head # pre), x, hd (r @ [head])] @ tl (r @ [head])"
  by (cases pre rule: rev_cases; cases r) auto

lemma cycle_split2:
  "head # pre @ r @ [head] =
     butlast (head # pre) @ [last (head # pre), hd (r @ [head])] @ tl (r @ [head])"
  by (cases pre rule: rev_cases; cases r) auto

lemma cycle_distinct:
  assumes "distinct (head # pre @ r)"
  shows "last (head # pre) \<notin> set (butlast (head # pre))"
    and "hd (r @ [head]) \<notin> set (tl (butlast (head # pre) @ [last (head # pre)]))"
    and "last (head # pre) \<notin> set (butlast (hd (r @ [head]) # tl (r @ [head])))"
    and "hd (r @ [head]) \<notin> set (tl (r @ [head]))"
proof -
  show "last (head # pre) \<notin> set (butlast (head # pre))"
    using assms by (cases pre rule: rev_cases) auto
  show "hd (r @ [head]) \<notin> set (tl (butlast (head # pre) @ [last (head # pre)]))"
    using assms by (cases r) (auto simp del: butlast.simps last.simps simp: append_butlast_last_id)
  show "last (head # pre) \<notin> set (butlast (hd (r @ [head]) # tl (r @ [head])))"
    using assms by (cases pre rule: rev_cases) (auto simp: butlast_append)
  show "hd (r @ [head]) \<notin> set (tl (r @ [head]))"
    using assms by (cases r) auto
qed

lemma heap_put_next_other: "q \<noteq> p \<Longrightarrow> heap (put_next p x s) q = heap s q"
  by (auto simp: put_next_def set_next_def split: option.splits obj.splits)

lemma heap_put_prev_other: "q \<noteq> p \<Longrightarrow> heap (put_prev p x s) q = heap s q"
  by (auto simp: put_prev_def set_prev_def split: option.splits obj.splits)


lemma heap_eq_get:
  assumes "heap s' q = heap s q"
  shows "get_next s' q = get_next s q" "get_prev s' q = get_prev s q"
    "get_value s' q = get_value s q" "get_chars s' q = get_chars s q"
    "is_list_head s' q = is_list_head s q" "is_node s' q = is_node s q"
  using assms
  by (simp_all add: get_next_def get_prev_def get_value_def get_chars_def is_list_head_def is_node_def)

lemma queue_frame:
  assumes q: "queue s head xs"
    and n: "\<forall>q\<in>set (head # xs). heap s' q = heap s q"
    and v: "\<forall>q\<in>set xs. heap s' (value_ptr s q) = heap s (value_ptr s q)"
  shows "queue s' head xs"
proof -
  have g: "get_next s' p = get_next s p \<and> get_prev s' p = get_prev s p \<and>
           get_value s' p = get_value s p" if "p \<in> set (head # xs)" for p
    using n that heap_eq_get[of s' p s] by blast
  have c: "get_chars s' (value_ptr s p) = get_chars s (value_ptr s p)" if "p \<in> set xs" for p
    using v that heap_eq_get[of s' "value_ptr s p" s] by blast
  have vp: "value_ptr s' p = value_ptr s p" if "p \<in> set xs" for p
    using g[of p] that by (simp add: value_ptr_def)
  have ok: "elem_ok s' p = elem_ok s p" if "p \<in> set xs" for p
    using g[of p] c[of p] that
    by (auto simp: elem_ok_def value_ptr_def split: sum.splits)
  have "successively (link s') (head # xs @ [head]) = successively (link s) (head # xs @ [head])"
  proof (rule successively_link_cong)
    show "\<forall>a\<in>set (butlast (head # xs @ [head])). get_next s' a = get_next s a"
      using g by (auto simp: butlast_append)
    show "\<forall>b\<in>set (tl (head # xs @ [head])). get_prev s' b = get_prev s b"
      using g by auto
  qed
  moreover have "is_list_head s' head = is_list_head s head"
    using n heap_eq_get[of s' head s] by simp
  moreover have "map (value_ptr s') xs = map (value_ptr s) xs"
    using vp by simp
  moreover have "list_all (elem_ok s') xs = list_all (elem_ok s) xs"
    using ok by (simp add: list_all_iff)
  ultimately show ?thesis using q unfolding queue_def by metis
qed

lemma is_node_dom: "is_node s p \<Longrightarrow> p \<in> dom (heap s)"
  by (auto simp: is_node_cases)

lemma elem_ok_value_dom: "elem_ok s p \<Longrightarrow> value_ptr s p \<in> dom (heap s)"
  by (auto simp: value_ptr_def get_chars_def dest!: elem_okD split: if_splits option.splits)

lemma elem_ok_value_not_node: "elem_ok s p \<Longrightarrow> \<not> is_node s (value_ptr s p)"
  by (auto simp: value_ptr_def get_chars_def is_node_cases dest!: elem_okD split: if_splits option.splits obj.splits)

lemma queue_elem_ok: "queue s head xs \<Longrightarrow> x \<in> set xs \<Longrightarrow> elem_ok s x"
  by (simp add: queue_def list_all_iff)

text \<open>Linking a fresh element behind the sentinel (\<open>list_add\<close>).\<close>

lemma list_add_queue:
  assumes q: "queue s head xs" and a: "elem_ok s a" "a \<notin> set (head # xs)"
    and v: "value_ptr s a \<notin> value_ptr s ` set xs"
  shows "\<exists>s'. list_add a head s = Inr s' \<and> queue s' head (a # xs) \<and>
           get_value s' = get_value s \<and> get_chars s' = get_chars s \<and>
           dom (heap s') = dom (heap s) \<and> alloc s' = alloc s \<and>
           (\<forall>p. \<not> is_node s p \<longrightarrow> heap s' p = heap s p)"
proof -
  define n where "n = hd (xs @ [head])"
  define s' where "s' = put_next head a (put_prev a head (put_next a n (put_prev n a s)))"
  have hn: "get_next s head = Inr n" using q by (simp add: n_def queue_next_head)
  have nin: "n \<in> set (head # xs)" by (cases xs) (simp_all add: n_def)
  have nB: "n # tl (xs @ [head]) = xs @ [head]" by (simp add: n_def)
  have nodes: "is_node s head" "is_node s a" "is_node s n"
    using queue_is_node[OF q, of head] queue_is_node[OF q nin] a
    by (simp_all add: elem_ok_is_node)
  have run: "list_add a head s = Inr s'"
    using hn nodes by (simp add: list_add_def s'_def set_next_put set_prev_put)
  have ne: "a \<noteq> head" "a \<noteq> n" using a nin by auto
  have L: "successively (link s) (butlast [head] @ [last [head], n] @ tl (xs @ [head]))"
    using q by (cases xs) (simp_all add: queue_def n_def)
  have "successively (link s') (butlast [head] @ [last [head], a, n] @ tl (xs @ [head]))"
  proof (rule insert_links[OF L])
    show "\<forall>q. q \<noteq> last [head] \<and> q \<noteq> a \<longrightarrow> get_next s' q = get_next s q"
      by (simp add: s'_def get_next_put_next_other)
    show "\<forall>q. q \<noteq> n \<and> q \<noteq> a \<longrightarrow> get_prev s' q = get_prev s q"
      by (simp add: s'_def get_prev_put_prev_other)
    show "get_next s' (last [head]) = Inr a" "get_prev s' a = Inr (last [head])"
      "get_next s' a = Inr n" "get_prev s' n = Inr a"
      using nodes ne by (simp_all add: s'_def get_next_put_next get_prev_put_prev)
    show "n \<notin> set (tl (xs @ [head]))" using q by (cases xs) (auto simp: n_def queue_def)
    show "a \<notin> set (tl (xs @ [head]))" using a by (cases xs) auto
    show "a \<noteq> last [head]" "a \<noteq> n" using ne by simp_all
    show "last [head] \<notin> set (butlast (n # tl (xs @ [head])))"
      using q unfolding nB by (simp add: queue_def)
  qed simp_all
  then have "successively (link s') (head # a # xs @ [head])"
    by (cases xs) (simp_all add: n_def)
  moreover have "value_ptr s' = value_ptr s" "elem_ok s' = elem_ok s"
    by (auto simp: s'_def fun_eq_iff)
  ultimately have "queue s' head (a # xs)"
    using q a v by (simp add: queue_def s'_def)
  moreover have "get_value s' = get_value s" "get_chars s' = get_chars s"
    by (auto simp: s'_def fun_eq_iff)
  moreover have "\<forall>p. \<not> is_node s p \<longrightarrow> heap s' p = heap s p"
    unfolding s'_def using nodes by (metis heap_put_next_other heap_put_prev_other)
  moreover have "dom (heap s') = dom (heap s)" "alloc s' = alloc s"
    by (simp_all add: s'_def)
  ultimately show ?thesis using run by blast
qed

lemma queue_value_not_node:
  assumes "queue s head xs" "x \<in> set xs"
  shows "\<not> is_node s (value_ptr s x)"
  using assms by (simp add: queue_elem_ok elem_ok_value_not_node)

text \<open>Unlinking one element of a queue (\<open>list_del\<close>).\<close>

lemma list_del_queue:
  assumes q: "queue s head (pre @ x # r)"
  shows "\<exists>s'. list_del x s = Inr s' \<and> queue s' head (pre @ r) \<and>
           get_value s' = get_value s \<and> get_chars s' = get_chars s \<and>
           get_next s' x = get_next s x \<and> get_prev s' x = get_prev s x \<and>
           dom (heap s') = dom (heap s) \<and> alloc s' = alloc s \<and>
           (\<forall>q. \<not> is_node s q \<longrightarrow> heap s' q = heap s q)"
proof -
  define p where "p = last (head # pre)"
  define n where "n = hd (r @ [head])"
  define A where "A = butlast (head # pre)"
  define B where "B = tl (r @ [head])"
  define s' where "s' = put_next p n (put_prev n p s)"
  have d: "distinct (head # pre @ x # r)" using q by (simp add: queue_def)
  have pin: "p \<in> set (head # pre)" unfolding p_def by (rule last_in_set) simp
  have nin: "n \<in> set (r @ [head])" unfolding n_def by (rule hd_in_set) simp
  have Ap: "A @ [p] = head # pre" unfolding A_def p_def by (rule append_butlast_last_id) simp
  have nB: "n # B = r @ [head]" unfolding n_def B_def by simp
  have cyc: "head # pre @ x # r @ [head] = A @ [p, x, n] @ B"
    using cycle_split3[of head pre x r] by (simp add: A_def p_def n_def B_def)
  have cyc': "head # pre @ r @ [head] = A @ [p, n] @ B"
    using cycle_split2[of head pre r] by (simp add: A_def p_def n_def B_def)
  have L: "successively (link s) (A @ [p, x, n] @ B)"
    using q unfolding cyc[symmetric] by (simp add: queue_def)
  then have lk: "link s p x" "link s x n"
    by (simp_all add: successively_mid3)
  then have nodes: "is_node s p" "is_node s n" "is_node s x"
    by (auto dest: link_is_node)
  have xs: "get_next s x = Inr n" "get_prev s x = Inr p"
    using lk by (simp_all add: link_def)
  have run: "list_del x s = Inr s'"
    using xs nodes by (simp add: list_del_def s'_def set_next_put set_prev_put)
  have ne: "x \<noteq> p" "x \<noteq> n" using d pin nin by auto
  have dist: "p \<notin> set A" "n \<notin> set (tl (A @ [p]))" "p \<notin> set (butlast (n # B))" "n \<notin> set B"
    using cycle_distinct[of head pre r] d by (simp_all add: A_def p_def n_def B_def)
  have "successively (link s') (A @ [p, n] @ B)"
  proof (rule unlink_links[OF L])
    show "\<forall>q. q \<noteq> p \<longrightarrow> get_next s' q = get_next s q"
      by (simp add: s'_def get_next_put_next_other)
    show "\<forall>q. q \<noteq> n \<longrightarrow> get_prev s' q = get_prev s q"
      by (simp add: s'_def get_prev_put_prev_other)
    show "get_next s' p = Inr n" "get_prev s' n = Inr p"
      using nodes by (simp_all add: s'_def get_next_put_next get_prev_put_prev)
  qed (use dist in simp_all)
  then have "successively (link s') (head # pre @ r @ [head])"
    unfolding cyc' .
  moreover have "value_ptr s' = value_ptr s" "elem_ok s' = elem_ok s"
    "is_list_head s' = is_list_head s"
    by (auto simp: s'_def fun_eq_iff)
  ultimately have "queue s' head (pre @ r)"
    using q by (simp add: queue_def)
  moreover have "get_value s' = get_value s" "get_chars s' = get_chars s"
    by (auto simp: s'_def fun_eq_iff)
  moreover have "get_next s' x = get_next s x" "get_prev s' x = get_prev s x"
    using ne by (simp_all add: s'_def get_next_put_next_other get_prev_put_prev_other)
  moreover have "\<forall>q. \<not> is_node s q \<longrightarrow> heap s' q = heap s q"
    unfolding s'_def using nodes by (metis heap_put_next_other heap_put_prev_other)
  moreover have "dom (heap s') = dom (heap s)" "alloc s' = alloc s"
    by (simp_all add: s'_def)
  ultimately show ?thesis using run by blast
qed

text \<open>Writes to a node outside the queue leave the queue alone.\<close>

lemma queue_put_next_other:
  assumes "queue s head xs" "p \<notin> set (head # xs)"
  shows "queue (put_next p x s) head xs"
proof (cases "is_node s p")
  case True
  show ?thesis
  proof (rule queue_frame[OF assms(1)])
    show "\<forall>q\<in>set (head # xs). heap (put_next p x s) q = heap s q"
      using assms(2) by (auto intro!: heap_put_next_other)
    show "\<forall>q\<in>set xs. heap (put_next p x s) (value_ptr s q) = heap s (value_ptr s q)"
      using True queue_value_not_node[OF assms(1)] by (auto intro!: heap_put_next_other)
  qed
next
  case False
  then have "put_next p x s = s"
    by (auto simp: put_next_def set_next_def is_node_cases split: option.splits obj.splits)
  then show ?thesis using assms by simp
qed

lemma queue_put_prev_other:
  assumes "queue s head xs" "p \<notin> set (head # xs)"
  shows "queue (put_prev p x s) head xs"
proof (cases "is_node s p")
  case True
  show ?thesis
  proof (rule queue_frame[OF assms(1)])
    show "\<forall>q\<in>set (head # xs). heap (put_prev p x s) q = heap s q"
      using assms(2) by (auto intro!: heap_put_prev_other)
    show "\<forall>q\<in>set xs. heap (put_prev p x s) (value_ptr s q) = heap s (value_ptr s q)"
      using True queue_value_not_node[OF assms(1)] by (auto intro!: heap_put_prev_other)
  qed
next
  case False
  then have "put_prev p x s = s"
    by (auto simp: put_prev_def set_prev_def is_node_cases split: option.splits obj.splits)
  then show ?thesis using assms by simp
qed

text \<open>\<open>q_remove_head\<close> on a non-empty queue, without an output buffer.\<close>

lemma q_remove_head_queue:
  assumes q: "queue s head (x # xs)"
  shows "\<exists>s'. q_remove_head head NULL bufsize s = Inr (x, s') \<and> queue s' head xs \<and>
           get_value s' = get_value s \<and> get_chars s' = get_chars s \<and>
           link s' x x \<and> dom (heap s') = dom (heap s) \<and> alloc s' = alloc s"
proof -
  from list_del_queue[of s head "[]" x xs] q obtain s1 where
    del: "list_del x s = Inr s1" and q1: "queue s1 head xs"
    and fr: "get_value s1 = get_value s" "get_chars s1 = get_chars s"
      "dom (heap s1) = dom (heap s)" "alloc s1 = alloc s"
    and xn: "get_next s1 x = get_next s x"
    by auto
  define s' where "s' = put_prev x x (put_next x x s1)"
  have hd: "get_next s head = Inr x" "head \<noteq> NULL" "x \<noteq> head"
    using q queue_next_head[OF q] by (auto simp: queue_def is_list_head_def)
  have nx: "is_node s1 x"
    using xn queue_is_node[OF q, of x] by (simp add: is_node_def)
  have init: "INIT_LIST_HEAD x s1 = Inr s'"
    using nx by (simp add: INIT_LIST_HEAD_def s'_def set_next_put set_prev_put)
  have run: "q_remove_head head NULL bufsize s = Inr (x, s')"
    using hd del init by (simp add: q_remove_head_def list_empty_def list_del_init_def copy_out_def)
  have xo: "x \<notin> set (head # xs)" using q by (auto simp: queue_def)
  have "queue s' head xs"
    unfolding s'_def by (intro queue_put_prev_other queue_put_next_other q1 xo)
  moreover have "link s' x x"
    using nx by (simp add: link_def s'_def get_next_put_next get_prev_put_prev)
  moreover have "get_value s' = get_value s" "get_chars s' = get_chars s"
    using fr by (auto simp: s'_def fun_eq_iff)
  moreover have "dom (heap s') = dom (heap s)" "alloc s' = alloc s"
    using fr by (simp_all add: s'_def)
  ultimately show ?thesis using run by blast
qed

lemma cstr_buffer: "cstr (cstr b @ [NUL]) = cstr b"
proof -
  have "\<forall>c\<in>set (cstr b). c \<noteq> NUL" by (auto simp: cstr_def dest: set_takeWhileD)
  then show ?thesis by (simp add: cstr_def takeWhile_append2)
qed

text \<open>The allocation phase of an insertion: the shell and its string buffer.\<close>

lemma q_insert_head_alloc:
  assumes "head \<noteq> NULL" "alloc s = ba # bb # rest" "base ba \<noteq> NULL" "base bb \<noteq> NULL"
    "base ba \<noteq> base bb"
  shows "q_insert_head head str s =
     bindf (list_add (base ba) head
        (s\<lparr>alloc := rest,
           heap := (heap s)(base ba \<mapsto> Element (base bb) (junk_ptr ba 1) (junk_ptr ba 2),
                            base bb \<mapsto> Chars (cstr str @ [NUL]))\<rparr>))
        (\<lambda>st6. Inr (True, st6))"
  using assms
  by (simp add: q_insert_head_def malloc_def set_value_def get_value_def strncpy_def
      get_chars_def set_char_def strlen_def list_update_append)

lemma q_insert_head_queue:
  assumes q: "queue s head xs"
    and al: "alloc s = ba # bb # rest" "base ba \<noteq> NULL" "base bb \<noteq> NULL"
      "base ba \<noteq> base bb"
    and fresh: "base ba \<notin> dom (heap s)" "base bb \<notin> dom (heap s)"
  shows "\<exists>s'. q_insert_head head str s = Inr (True, s') \<and> queue s' head (base ba # xs) \<and>
           get_value s' (base ba) = Inr (base bb) \<and>
           get_chars s' (base bb) = Inr (cstr str @ [NUL]) \<and>
           alloc s' = rest \<and> dom (heap s') = dom (heap s) \<union> {base ba, base bb} \<and>
           (\<forall>p\<in>dom (heap s). \<not> is_node s p \<longrightarrow> heap s' p = heap s p) \<and>
           (\<forall>x\<in>set xs. elem_string s' x = elem_string s x)"
proof -
  define a where "a = base ba"
  define b where "b = base bb"
  define t where "t = s\<lparr>alloc := rest,
     heap := (heap s)(a \<mapsto> Element b (junk_ptr ba 1) (junk_ptr ba 2),
                      b \<mapsto> Chars (cstr str @ [NUL]))\<rparr>"
  have ab: "a \<noteq> NULL" "b \<noteq> NULL" "a \<noteq> b" "a \<notin> dom (heap s)" "b \<notin> dom (heap s)"
    using al fresh by (simp_all add: a_def b_def)
  have hn: "head \<noteq> NULL" using q by (simp add: queue_def is_list_head_def)
  have eq: "q_insert_head head str s = bindf (list_add a head t) (\<lambda>st6. Inr (True, st6))"
    unfolding t_def a_def b_def using hn al by (rule q_insert_head_alloc)
  have old: "heap t p = heap s p" if "p \<in> dom (heap s)" for p
    using that ab by (auto simp: t_def)
  have nd: "p \<in> dom (heap s)" if "p \<in> set (head # xs)" for p
    using queue_is_node[OF q that] by (rule is_node_dom)
  have vd: "value_ptr s p \<in> dom (heap s)" if "p \<in> set xs" for p
    using queue_elem_ok[OF q that] by (rule elem_ok_value_dom)
  have qt: "queue t head xs"
    by (rule queue_frame[OF q]) (use old nd vd in blast)+
  have ta: "get_value t a = Inr b" "get_chars t b = Inr (cstr str @ [NUL])"
    using ab by (simp_all add: t_def get_value_def get_chars_def)
  have oka: "elem_ok t a"
    using ta by (simp add: elem_ok_def)
  have ao: "a \<notin> set (head # xs)" using nd ab by blast
  have vt: "value_ptr t p = value_ptr s p" if "p \<in> set xs" for p
    using old[OF nd, of p] that heap_eq_get(3)[of t p s] by (simp add: value_ptr_def)
  have vo: "value_ptr t a \<notin> value_ptr t ` set xs"
    using vt vd ab ta by (auto simp: value_ptr_def)
  from list_add_queue[OF qt oka ao vo] obtain s' where
    run: "list_add a head t = Inr s'" and q': "queue s' head (a # xs)"
    and fr: "get_value s' = get_value t" "get_chars s' = get_chars t"
      "dom (heap s') = dom (heap t)" "alloc s' = alloc t"
    and keep: "\<forall>p. \<not> is_node t p \<longrightarrow> heap s' p = heap t p"
    by blast
  have es: "elem_string s' p = elem_string s p" if "p \<in> set xs" for p
  proof -
    have "get_chars t (value_ptr s p) = get_chars s (value_ptr s p)"
      using old[OF vd[OF that]] by (rule heap_eq_get)
    then show ?thesis using fr vt[OF that]
      by (simp add: elem_string_def value_ptr_def)
  qed
  have kp: "heap s' p = heap s p" if "p \<in> dom (heap s)" "\<not> is_node s p" for p
  proof -
    have "is_node t p = is_node s p" using old[OF that(1)] by (rule heap_eq_get)
    then show ?thesis using keep that old by simp
  qed
  have "dom (heap t) = dom (heap s) \<union> {a, b}" by (auto simp: t_def)
  then show ?thesis using eq run q' fr ta es kp unfolding a_def b_def
    by (auto simp: t_def)
qed

text \<open>A queue survives a change of its strings that keeps them terminated.\<close>

lemma queue_frame_strings:
  assumes q: "queue s head xs"
    and n: "\<forall>q\<in>set (head # xs). heap s' q = heap s q"
    and v: "\<forall>q\<in>set xs. \<exists>b. get_chars s' (value_ptr s q) = Inr b \<and> NUL \<in> set b"
  shows "queue s' head xs"
proof -
  have g: "get_next s' p = get_next s p \<and> get_prev s' p = get_prev s p \<and>
           get_value s' p = get_value s p" if "p \<in> set (head # xs)" for p
    using n that heap_eq_get[of s' p s] by blast
  have vp: "value_ptr s' p = value_ptr s p" if "p \<in> set xs" for p
    using g[of p] that by (simp add: value_ptr_def)
  have ok: "elem_ok s' p" if pin: "p \<in> set xs" for p
  proof -
    obtain w where w: "get_value s p = Inr w"
      using queue_elem_ok[OF q pin] by (blast dest: elem_okD)
    then have "value_ptr s p = w" by (simp add: value_ptr_def)
    then obtain b where "get_chars s' w = Inr b" "NUL \<in> set b" using v pin by blast
    moreover have "get_value s' p = Inr w" using g[of p] w pin by simp
    ultimately show ?thesis by (simp add: elem_ok_def)
  qed
  have "successively (link s') (head # xs @ [head]) = successively (link s) (head # xs @ [head])"
  proof (rule successively_link_cong)
    show "\<forall>a\<in>set (butlast (head # xs @ [head])). get_next s' a = get_next s a"
      using g by (auto simp: butlast_append)
    show "\<forall>b\<in>set (tl (head # xs @ [head])). get_prev s' b = get_prev s b"
      using g by auto
  qed
  moreover have "is_list_head s' head = is_list_head s head"
    using n heap_eq_get[of s' head s] by simp
  moreover have "map (value_ptr s') xs = map (value_ptr s) xs"
    using vp by simp
  moreover have "list_all (elem_ok s') xs"
    using ok by (simp add: list_all_iff)
  ultimately show ?thesis using q unfolding queue_def by metis
qed

lemma cstr_no_NUL: "NUL \<notin> set (cstr b)"
  by (auto simp: cstr_def dest: set_takeWhileD)

lemma cstr_cut: "NUL \<notin> set A \<Longrightarrow> cstr (A @ NUL # rest) = A"
  by (induction A) (auto simp: cstr_def)

lemma copied_length:
  "n \<le> length ob \<Longrightarrow>
   length (take n (cstr src) @ replicate (n - strlen src) NUL @ drop n ob) = length ob"
  by (auto simp: strlen_def min_def)

text \<open>The bytes \<open>strncpy\<close> and the terminator store leave in the output buffer.\<close>

lemma copied_bytes:
  assumes "n < length ob"
  shows "\<exists>rest. (take n (cstr src) @ replicate (n - strlen src) NUL @ drop n ob)[n := NUL] =
           take n (cstr src) @ NUL # rest"
proof -
  define A where "A = take n (cstr src)"
  define R where "R = replicate (n - strlen src) NUL"
  obtain d ds where D: "drop n ob = d # ds"
    using assms by (cases "drop n ob") auto
  have len: "length (A @ R) = n" by (auto simp: A_def R_def strlen_def)
  have "(A @ R @ d # ds)[n := NUL] = ((A @ R) @ d # ds)[length (A @ R) := NUL]"
    using len by simp
  also have "\<dots> = (A @ R) @ NUL # ds" by (rule list_update_length)
  also have "\<dots> = A @ NUL # (R @ ds)"
    by (simp add: R_def replicate_app_Cons_same)
  finally show ?thesis unfolding A_def R_def D by blast
qed

lemma copy_out_buffer:
  assumes e: "get_value s e = Inr v" "get_chars s v = Inr src"
    and sp: "heap s sp = Some (Chars ob)" "sp \<noteq> NULL"
    and sz: "bufsize \<noteq> 0" "unat bufsize \<le> length ob"
  shows "\<exists>ob'. copy_out sp e bufsize s = Inr (s\<lparr>heap := (heap s)(sp \<mapsto> Chars ob')\<rparr>) \<and>
           cstr ob' = take (unat bufsize - 1) (cstr src) \<and> NUL \<in> set ob'"
proof -
  define n where "n = unat bufsize - 1"
  have un: "unat (bufsize - 1) = n" using sz(1) by (simp add: n_def unat_minus_one)
  have "unat bufsize \<noteq> 0" using sz(1) by (simp add: unat_eq_0)
  then have lt: "n < length ob" using sz(2) by (simp add: n_def)
  define ob' where
    "ob' = (take n (cstr src) @ replicate (n - strlen src) NUL @ drop n ob)[n := NUL]"
  obtain rest where r: "ob' = take n (cstr src) @ NUL # rest"
    unfolding ob'_def using copied_bytes[OF lt] by blast
  have "NUL \<notin> set (take n (cstr src))"
    using cstr_no_NUL[of src] by (auto dest: in_set_takeD)
  then have c: "cstr ob' = take n (cstr src)" unfolding r by (rule cstr_cut)
  have gs: "get_chars s sp = Inr ob" using sp by (simp add: get_chars_def)
  have len: "length (take n (cstr src) @ replicate (n - strlen src) NUL @ drop n ob) = length ob"
    using lt by (intro copied_length) simp
  have st: "strncpy sp src n s = Inr (s\<lparr>heap := (heap s)(sp \<mapsto>
              Chars (take n (cstr src) @ replicate (n - strlen src) NUL @ drop n ob))\<rparr>)"
    using gs lt by (simp add: strncpy_def)
  have "set_char sp n NUL (s\<lparr>heap := (heap s)(sp \<mapsto>
              Chars (take n (cstr src) @ replicate (n - strlen src) NUL @ drop n ob))\<rparr>) =
        Inr (s\<lparr>heap := (heap s)(sp \<mapsto> Chars ob')\<rparr>)"
    using sp(2) lt len by (simp add: set_char_def get_chars_def ob'_def del: length_append)
  then have "copy_out sp e bufsize s = Inr (s\<lparr>heap := (heap s)(sp \<mapsto> Chars ob')\<rparr>)"
    using e sp(2) st un by (simp add: copy_out_def)
  moreover have "NUL \<in> set ob'" unfolding r by simp
  ultimately show ?thesis using c unfolding n_def by blast
qed

text \<open>
  \<open>q_remove_head\<close> on a non-empty queue, with a caller's buffer of at least \<open>bufsize\<close>
  bytes.
\<close>

lemma q_remove_head_buffer:
  assumes q: "queue s head (x # xs)"
    and sp: "heap s sp = Some (Chars ob)" "sp \<noteq> NULL"
    and sz: "bufsize \<noteq> 0" "unat bufsize \<le> length ob"
    and nv: "sp \<noteq> value_ptr s x"
  shows "\<exists>s' ob'. q_remove_head head sp bufsize s = Inr (x, s') \<and> queue s' head xs \<and>
           elem_string s' x = elem_string s x \<and> get_value s' = get_value s \<and>
           get_chars s' sp = Inr ob' \<and> cstr ob' = take (unat bufsize - 1) (elem_string s x) \<and>
           link s' x x \<and> dom (heap s') = dom (heap s) \<and> alloc s' = alloc s"
proof -
  from list_del_queue[of s head "[]" x xs] q obtain s1 where
    del: "list_del x s = Inr s1" and q1: "queue s1 head xs"
    and fr: "get_value s1 = get_value s" "get_chars s1 = get_chars s"
      "dom (heap s1) = dom (heap s)" "alloc s1 = alloc s"
    and xn: "get_next s1 x = get_next s x"
    and keep: "\<forall>q. \<not> is_node s q \<longrightarrow> heap s1 q = heap s q"
    by auto
  define s2 where "s2 = put_prev x x (put_next x x s1)"
  have hd: "get_next s head = Inr x" "head \<noteq> NULL" "x \<noteq> head"
    using q queue_next_head[OF q] by (auto simp: queue_def is_list_head_def)
  have nx: "is_node s1 x"
    using xn queue_is_node[OF q, of x] by (simp add: is_node_def)
  have init: "INIT_LIST_HEAD x s1 = Inr s2"
    using nx by (simp add: INIT_LIST_HEAD_def s2_def set_next_put set_prev_put)
  have xo: "x \<notin> set (head # xs)" using q by (auto simp: queue_def)
  have q2: "queue s2 head xs"
    unfolding s2_def by (intro queue_put_prev_other queue_put_next_other q1 xo)
  have okx: "elem_ok s x" using queue_elem_ok[OF q, of x] by simp
  then obtain v src where v: "get_value s x = Inr v" "get_chars s v = Inr src"
    by (blast dest: elem_okD)
  have g2: "get_value s2 = get_value s" "get_chars s2 = get_chars s"
    using fr by (auto simp: s2_def fun_eq_iff)
  have spn: "\<not> is_node s sp" using sp by (auto simp: is_node_cases)
  have spx: "sp \<noteq> x" using sp queue_is_node[OF q, of x] by (auto simp: is_node_cases)
  have sp2: "heap s2 sp = Some (Chars ob)"
    using keep spn sp spx by (simp add: s2_def heap_put_next_other heap_put_prev_other)
  from copy_out_buffer[of s2 x v src sp ob bufsize] v g2 sp2 sp(2) sz obtain ob' where
    co: "copy_out sp x bufsize s2 = Inr (s2\<lparr>heap := (heap s2)(sp \<mapsto> Chars ob')\<rparr>)"
    and c: "cstr ob' = take (unat bufsize - 1) (cstr src)" and nul: "NUL \<in> set ob'"
    by auto
  define s' where "s' = s2\<lparr>heap := (heap s2)(sp \<mapsto> Chars ob')\<rparr>"
  have run: "q_remove_head head sp bufsize s = Inr (x, s')"
    using hd del init co
    by (simp add: q_remove_head_def list_empty_def list_del_init_def s'_def)
  have other: "heap s' p = heap s2 p" if "p \<noteq> sp" for p
    using that by (simp add: s'_def)
  have gsp: "get_chars s' sp = Inr ob'" using sp(2) by (simp add: s'_def get_chars_def)
  have q': "queue s' head xs"
  proof (rule queue_frame_strings[OF q2])
    show "\<forall>p\<in>set (head # xs). heap s' p = heap s2 p"
    proof
      fix p assume "p \<in> set (head # xs)"
      then have "is_node s2 p" using queue_is_node[OF q2] by blast
      then have "p \<noteq> sp" using sp2 by (auto simp: is_node_cases)
      then show "heap s' p = heap s2 p" by (rule other)
    qed
    show "\<forall>p\<in>set xs. \<exists>b. get_chars s' (value_ptr s2 p) = Inr b \<and> NUL \<in> set b"
    proof
      fix p assume p: "p \<in> set xs"
      show "\<exists>b. get_chars s' (value_ptr s2 p) = Inr b \<and> NUL \<in> set b"
      proof (cases "value_ptr s2 p = sp")
        case True
        then show ?thesis using gsp nul by simp
      next
        case False
        obtain w b where "get_value s2 p = Inr w" "get_chars s2 w = Inr b" "NUL \<in> set b"
          using queue_elem_ok[OF q2 p] by (blast dest: elem_okD)
        moreover have "get_chars s' (value_ptr s2 p) = get_chars s2 (value_ptr s2 p)"
          using other[OF False] by (rule heap_eq_get)
        ultimately show ?thesis by (simp add: value_ptr_def)
      qed
    qed
  qed
  have xs': "heap s' x = heap s2 x" using spx by (intro other) simp
  have "link s2 x x"
    using nx by (simp add: link_def s2_def get_next_put_next get_prev_put_prev)
  then have lx: "link s' x x"
    using heap_eq_get(1,2)[OF xs'] by (simp add: link_def)
  have gv: "get_value s' = get_value s"
  proof
    fix p
    show "get_value s' p = get_value s p"
    proof (cases "p = sp")
      case True
      then show ?thesis using sp by (simp add: s'_def get_value_def)
    next
      case False
      then show ?thesis using heap_eq_get(3)[OF other[OF False]] g2 by simp
    qed
  qed
  have vx: "value_ptr s x = v" using v by (simp add: value_ptr_def)
  then have "v \<noteq> sp" using nv by simp
  then have "get_chars s' v = get_chars s v"
    using heap_eq_get(4)[OF other, of v] g2 by simp
  then have es: "elem_string s' x = elem_string s x"
    using gv vx by (simp add: elem_string_def value_ptr_def)
  have cs: "cstr ob' = take (unat bufsize - 1) (elem_string s x)"
    using c v vx by (simp add: elem_string_def)
  have "dom (heap s2) = dom (heap s)" using fr by (simp add: s2_def)
  moreover have "sp \<in> dom (heap s)" using sp by auto
  ultimately have "dom (heap s') = dom (heap s)"
    by (auto simp: s'_def)
  moreover have "alloc s' = alloc s" using fr by (simp add: s'_def s2_def)
  ultimately show ?thesis using run q' es gv gsp cs lx by blast
qed

section \<open>Claims about insertion, removal and absent queues\<close>

text \<open>
  C1 (the code departs from this claim). On the sorted queue \<open>["a", "b", "b", "c"]\<close>
  the claim expects \<open>q_delete_dup\<close> to leave \<open>["a", "c"]\<close>. The loop never compares
  strings and never advances \<open>first\<close>: it only redirects the sentinel's forward pointer,
  so the forward chain afterwards is \<open>["b", "c"]\<close>, the duplicated value is still there
  and the unique value \<open>"a"\<close> is gone. The return value is true, as the claim says.
\<close>

theorem q_delete_dup_keeps_duplicate:
  "queue dup_queue 1 [2, 3, 4, 5] \<and>
   map (elem_string dup_queue) [2, 3, 4, 5] = [''a'', ''b'', ''b'', ''c''] \<and>
   (\<exists>s'. q_delete_dup 1 dup_queue = Some (Inr (True, s')) \<and>
      get_next s' 1 = Inr 4 \<and> get_next s' 4 = Inr 5 \<and> get_next s' 5 = Inr 1 \<and>
      map (elem_string s') [4, 5] = [''b'', ''c''] \<and>
      \<not> queue s' 1 [2, 5])"
proof (intro conjI)
  show "queue dup_queue 1 [2, 3, 4, 5]"
    by (simp add: queue_def dup_queue_def is_list_head_def link_def get_next_def get_prev_def
        elem_ok_def get_value_def get_chars_def value_ptr_def)
  show "map (elem_string dup_queue) [2, 3, 4, 5] = [''a'', ''b'', ''b'', ''c'']"
    by (simp add: dup_queue_def elem_string_def get_value_def get_chars_def value_ptr_def
        cstr_def NUL_def)
  show "\<exists>s'. q_delete_dup 1 dup_queue = Some (Inr (True, s')) \<and>
      get_next s' 1 = Inr 4 \<and> get_next s' 4 = Inr 5 \<and> get_next s' 5 = Inr 1 \<and>
      map (elem_string s') [4, 5] = [''b'', ''c''] \<and> \<not> queue s' 1 [2, 5]"
    by (simp add: q_delete_dup_def q_delete_dup_loop.simps dup_queue_def get_next_def
        set_next_def elem_string_def get_value_def get_chars_def value_ptr_def cstr_def NUL_def
        queue_def link_def)
qed

text \<open>
  C2 (the code departs from this claim). \<open>q_swap\<close> and \<open>q_reverse\<close> read
  \<open>head->next\<close> before any test of \<open>head\<close>, so an absent queue is dereferenced; every
  other operation tests \<open>head\<close> first and returns.
\<close>

theorem q_swap_q_reverse_null_fault:
  "q_swap NULL s = Some (Inl NullPointer) \<and> q_reverse NULL s = Some (Inl NullPointer) \<and>
   q_free NULL s = Some (Inr s) \<and> q_insert_head NULL str s = Inr (False, s) \<and>
   q_insert_tail NULL str s = Inr (False, s) \<and> q_remove_head NULL sp n s = Inr (NULL, s) \<and>
   q_remove_tail NULL sp n s = Inr (NULL, s) \<and> q_size NULL s = Some (Inr 0) \<and>
   q_delete_mid NULL s = Some (Inr (False, s)) \<and> q_delete_dup NULL s = Some (Inr (False, s)) \<and>
   q_sort NULL s = Some (Inr s)"
  by (simp add: q_swap_def q_reverse_def get_next_def q_free_def q_insert_head_def
      q_insert_tail_def q_remove_head_def q_remove_tail_def q_size_def q_delete_mid_def
      q_delete_dup_def q_sort_def)

text \<open>
  C3 (the code departs from this claim). When the shell is allocated and the string
  buffer is not, \<open>q_insert_head\<close> frees the shell and returns false with the heap
  unchanged; \<open>q_insert_tail\<close> has no such test and copies the string through the null
  pointer.
\<close>

theorem q_insert_tail_null_buffer_fault:
  "q_insert_tail 1 ''x'' starved_queue = Inl NullPointer \<and>
   q_insert_head 1 ''x'' starved_queue = Inr (False, \<lparr>heap = [1 \<mapsto> ListHead 1 1], alloc = []\<rparr>)"
  by (simp add: q_insert_tail_def q_insert_head_def starved_queue_def garbage_def malloc_def
      set_value_def get_value_def strncpy_def get_chars_def free_def)

text \<open>
  C9. On a well-formed queue, when the allocator grants two fresh blocks, whatever
  they contain, \<open>q_insert_head\<close> succeeds, the new element owns the second block and
  that block holds the bytes of the string followed by the terminator. A call of
  \<open>q_remove_head\<close> right after it, without an output buffer or with any buffer of the
  caller that has room for \<open>bufsize > 0\<close> bytes, returns that element, still holding the
  string, and leaves the queue as it was; the output buffer receives the first
  \<open>bufsize - 1\<close> bytes of the string and a terminator.
\<close>

theorem insert_head_remove_head_roundtrip:
  assumes "queue s head xs"
    and "alloc s = ba # bb # rest" "base ba \<noteq> NULL" "base bb \<noteq> NULL" "base ba \<noteq> base bb"
    and "base ba \<notin> dom (heap s)" "base bb \<notin> dom (heap s)"
    and "sp = NULL \<or> (heap s sp = Some (Chars ob) \<and> bufsize \<noteq> 0 \<and> unat bufsize \<le> length ob)"
  shows "\<exists>s1 s2. q_insert_head head str s = Inr (True, s1) \<and>
           queue s1 head (base ba # xs) \<and>
           get_value s1 (base ba) = Inr (base bb) \<and>
           get_chars s1 (base bb) = Inr (cstr str @ [NUL]) \<and>
           q_remove_head head sp bufsize s1 = Inr (base ba, s2) \<and>
           elem_string s2 (base ba) = cstr str \<and> queue s2 head xs \<and>
           (sp \<noteq> NULL \<longrightarrow>
              (\<exists>ob'. get_chars s2 sp = Inr ob' \<and>
                     cstr ob' = take (unat bufsize - 1) (cstr str)))"
proof -
  from q_insert_head_queue[OF assms(1-7), of str] obtain s1 where
    ins: "q_insert_head head str s = Inr (True, s1)" and q1: "queue s1 head (base ba # xs)"
    and v: "get_value s1 (base ba) = Inr (base bb)"
      "get_chars s1 (base bb) = Inr (cstr str @ [NUL])"
    and keep: "\<forall>p\<in>dom (heap s). \<not> is_node s p \<longrightarrow> heap s1 p = heap s p"
    by blast
  have es1: "elem_string s1 (base ba) = cstr str"
    using v by (simp add: elem_string_def value_ptr_def cstr_buffer)
  show ?thesis
  proof (cases "sp = NULL")
    case True
    from q_remove_head_queue[OF q1, of bufsize] obtain s2 where
      rem: "q_remove_head head NULL bufsize s1 = Inr (base ba, s2)" and q2: "queue s2 head xs"
      and fr: "get_value s2 = get_value s1" "get_chars s2 = get_chars s1"
      by blast
    have "elem_string s2 (base ba) = cstr str"
      using es1 fr by (simp add: elem_string_def value_ptr_def)
    then show ?thesis using ins q1 v rem q2 True by blast
  next
    case False
    then have b: "heap s sp = Some (Chars ob)" "bufsize \<noteq> 0" "unat bufsize \<le> length ob"
      using assms(8) by simp_all
    have "\<not> is_node s sp" using b(1) by (auto simp: is_node_cases)
    moreover have spd: "sp \<in> dom (heap s)" using b(1) by auto
    ultimately have sp1: "heap s1 sp = Some (Chars ob)" using keep b(1) by simp
    have "sp \<noteq> base bb" using spd assms(7) by auto
    then have nv: "sp \<noteq> value_ptr s1 (base ba)" using v by (simp add: value_ptr_def)
    from q_remove_head_buffer[OF q1 sp1 False b(2,3) nv] obtain s2 ob' where
      rem: "q_remove_head head sp bufsize s1 = Inr (base ba, s2)" and q2: "queue s2 head xs"
      and es: "elem_string s2 (base ba) = elem_string s1 (base ba)"
      and out: "get_chars s2 sp = Inr ob'"
        "cstr ob' = take (unat bufsize - 1) (elem_string s1 (base ba))"
      by blast
    show ?thesis using ins q1 v rem q2 es out es1 by auto
  qed
qed

theorem insert_head_remove_head_roundtrip_witness:
  "queue fresh_queue 1 [] \<and> alloc fresh_queue = [garbage 2, garbage 3] \<and>
   heap fresh_queue 20 = Some (Chars ''zzzz'') \<and>
   (\<exists>s1 s2. q_insert_head 1 ''hi'' fresh_queue = Inr (True, s1) \<and>
      queue s1 1 [2] \<and>
      get_value s1 2 = Inr 3 \<and> get_chars s1 3 = Inr (''hi'' @ [NUL]) \<and>
      q_remove_head 1 20 2 s1 = Inr (2, s2) \<and>
      elem_string s2 2 = ''hi'' \<and> queue s2 1 [] \<and>
      (\<exists>ob'. get_chars s2 20 = Inr ob' \<and> cstr ob' = ''h''))"
proof -
  have q: "queue fresh_queue 1 []"
    by (simp add: queue_def fresh_queue_def is_list_head_def link_def get_next_def get_prev_def)
  have al: "alloc fresh_queue = [garbage 2, garbage 3]" by (simp add: fresh_queue_def)
  have sp: "heap fresh_queue 20 = Some (Chars ''zzzz'')" by (simp add: fresh_queue_def)
  have c: "cstr ''hi'' = ''hi''" by (simp add: cstr_def NUL_def)
  have g: "base (garbage 2) = 2" "base (garbage 3) = 3" by (simp_all add: garbage_def)
  have d: "2 \<notin> dom (heap fresh_queue)" "3 \<notin> dom (heap fresh_queue)"
    by (simp_all add: fresh_queue_def)
  have b: "(20::nat) = NULL \<or> (heap fresh_queue 20 = Some (Chars ''zzzz'') \<and>
             (2 :: 64 word) \<noteq> 0 \<and> unat (2 :: 64 word) \<le> length ''zzzz'')"
    using sp by simp
  show ?thesis
    using insert_head_remove_head_roundtrip[OF q al, of 20 "''zzzz''" 2 "''hi''"] q al sp g d b
    by (simp add: c)
qed

section \<open>Reversal\<close>

lemma q_reverse_body_put:
  assumes "get_prev s running = Inr rp"
  shows "q_reverse_body running safe s = Inr (put_prev running safe (put_next running rp s))"
proof -
  have "is_node s running" using assms by (rule get_prev_is_node)
  then show ?thesis using assms
    by (simp add: q_reverse_body_def set_next_put set_prev_put)
qed

lemma q_reverse_loop_correct:
  assumes "distinct rs" "head \<notin> set rs" "\<forall>p\<in>set rs. is_node s p"
    and "successively (\<lambda>a b. get_next s a = Inr b) (rs @ [head])"
    and "running = hd (rs @ [head])" "get_next s running = Inr safe"
    and "get_next s head = Inr hn"
  shows "\<exists>s'. q_reverse_loop head running safe s = Some (Inr (head, hn, s')) \<and>
           (\<forall>p\<in>set rs. get_next s' p = get_prev s p \<and> get_prev s' p = get_next s p) \<and>
           (\<forall>p. p \<notin> set rs \<longrightarrow> heap s' p = heap s p) \<and>
           get_value s' = get_value s \<and> get_chars s' = get_chars s \<and>
           dom (heap s') = dom (heap s) \<and> alloc s' = alloc s"
  using assms
proof (induction rs arbitrary: s running safe)
  case Nil
  then show ?case by (simp add: q_reverse_loop.simps)
next
  case (Cons x rs)
  have rx: "running = x" "x \<noteq> head" using Cons.prems by auto
  have nx: "is_node s x" using Cons.prems by simp
  then obtain rp where rp: "get_prev s x = Inr rp" using is_node_get_prev by blast
  define s1 where "s1 = put_prev x safe (put_next x rp s)"
  have body: "q_reverse_body x safe s = Inr s1"
    unfolding s1_def using rp by (rule q_reverse_body_put)
  have safe: "safe = hd (rs @ [head])"
    using Cons.prems(4,6) rx by (cases rs) (auto simp: successively_Cons)
  have sx: "safe \<noteq> x" using Cons.prems(1,2) rx safe by (cases rs) auto
  have other: "get_next s1 p = get_next s p" if "p \<noteq> x" for p
    using that by (simp add: s1_def get_next_put_next_other)
  have otherp: "get_prev s1 p = get_prev s p" if "p \<noteq> x" for p
    using that by (simp add: s1_def get_prev_put_prev_other)
  have heap1: "heap s1 p = heap s p" if "p \<noteq> x" for p
    using that by (simp add: s1_def heap_put_next_other heap_put_prev_other)
  have sin: "safe \<in> set (rs @ [head])" unfolding safe by (rule hd_in_set) simp
  have "is_node s safe"
    using sin Cons.prems(3,7) by (auto intro: get_next_is_node)
  then obtain safe' where safe': "get_next s safe = Inr safe'"
    using is_node_get_next by blast
  have step: "q_reverse_loop head x safe s = q_reverse_loop head safe safe' s1"
    using rx body safe' other[OF sx]
    by (subst q_reverse_loop.simps) simp
  have suc: "successively (\<lambda>a b. get_next s1 a = Inr b) (rs @ [head])"
  proof -
    have "successively (\<lambda>a b. get_next s a = Inr b) (rs @ [head])"
      using Cons.prems(4) by (cases rs) (auto simp: successively_Cons)
    moreover have ne: "\<forall>a\<in>set (rs @ [head]). a \<noteq> x" using Cons.prems(1,2) rx by auto
    moreover have "successively (\<lambda>a b. get_next s1 a = Inr b) (rs @ [head]) =
        successively (\<lambda>a b. get_next s a = Inr b) (rs @ [head])"
      by (rule successively_cong) (use ne other in auto)
    ultimately show ?thesis by simp
  qed
  have "\<exists>s'. q_reverse_loop head safe safe' s1 = Some (Inr (head, hn, s')) \<and>
           (\<forall>p\<in>set rs. get_next s' p = get_prev s1 p \<and> get_prev s' p = get_next s1 p) \<and>
           (\<forall>p. p \<notin> set rs \<longrightarrow> heap s' p = heap s1 p) \<and>
           get_value s' = get_value s1 \<and> get_chars s' = get_chars s1 \<and>
           dom (heap s') = dom (heap s1) \<and> alloc s' = alloc s1"
  proof (rule Cons.IH)
    show "distinct rs" "head \<notin> set rs" using Cons.prems by auto
    show "\<forall>p\<in>set rs. is_node s1 p" using Cons.prems(3) by (simp add: s1_def)
    show "successively (\<lambda>a b. get_next s1 a = Inr b) (rs @ [head])" by (rule suc)
    show "safe = hd (rs @ [head])" by (rule safe)
    show "get_next s1 safe = Inr safe'" using safe' other[OF sx] by simp
    show "get_next s1 head = Inr hn" using Cons.prems(7) other[of head] rx by simp
  qed
  then obtain s' where
    run: "q_reverse_loop head safe safe' s1 = Some (Inr (head, hn, s'))"
    and flip: "\<forall>p\<in>set rs. get_next s' p = get_prev s1 p \<and> get_prev s' p = get_next s1 p"
    and keep: "\<forall>p. p \<notin> set rs \<longrightarrow> heap s' p = heap s1 p"
    and fr: "get_value s' = get_value s1" "get_chars s' = get_chars s1"
      "dom (heap s') = dom (heap s1)" "alloc s' = alloc s1"
    by blast
  have xn: "x \<notin> set rs" using Cons.prems(1) by simp
  have hx: "heap s' x = heap s1 x" using keep xn by simp
  have fx: "get_next s' x = get_prev s x \<and> get_prev s' x = get_next s x"
    using heap_eq_get(1,2)[OF hx] nx rp Cons.prems(6) rx
    by (simp add: s1_def get_next_put_next get_prev_put_prev)
  have "\<forall>p\<in>set (x # rs). get_next s' p = get_prev s p \<and> get_prev s' p = get_next s p"
  proof
    fix p assume p: "p \<in> set (x # rs)"
    show "get_next s' p = get_prev s p \<and> get_prev s' p = get_next s p"
    proof (cases "p = x")
      case True
      then show ?thesis using fx by simp
    next
      case False
      then have "p \<in> set rs" using p by simp
      then show ?thesis using flip other[OF False] otherp[OF False] by simp
    qed
  qed
  moreover have "\<forall>p. p \<notin> set (x # rs) \<longrightarrow> heap s' p = heap s p"
    using keep heap1 by auto
  moreover have "get_value s' = get_value s" "get_chars s' = get_chars s"
    "dom (heap s') = dom (heap s)" "alloc s' = alloc s"
    using fr by (auto simp: s1_def fun_eq_iff)
  ultimately show ?case using run step rx by auto
qed

lemma queue_forward:
  assumes "queue s head xs"
  shows "successively (\<lambda>a b. get_next s a = Inr b) (head # xs @ [head])"
proof -
  have "successively (link s) (head # xs @ [head])" using assms by (simp add: queue_def)
  then show ?thesis by (rule successively_mono) (simp add: link_def)
qed

lemma elem_ok_cong:
  "get_value s' = get_value s \<Longrightarrow> get_chars s' = get_chars s \<Longrightarrow> elem_ok s' = elem_ok s"
  by (rule ext) (simp add: elem_ok_def split: sum.splits)

lemma value_ptr_cong: "get_value s' = get_value s \<Longrightarrow> value_ptr s' = value_ptr s"
  by (rule ext) (simp add: value_ptr_def)

lemma elem_string_cong:
  "get_value s' = get_value s \<Longrightarrow> get_chars s' = get_chars s \<Longrightarrow> elem_string s' = elem_string s"
  by (rule ext) (simp add: elem_string_def value_ptr_def)

lemma q_reverse_queue:
  assumes q: "queue s head xs"
  shows "\<exists>s'. q_reverse head s = Some (Inr s') \<and> queue s' head (rev xs) \<and>
           get_value s' = get_value s \<and> get_chars s' = get_chars s \<and>
           dom (heap s') = dom (heap s) \<and> alloc s' = alloc s"
proof -
  define hn where "hn = hd (xs @ [head])"
  define hp where "hp = last (head # xs)"
  have d: "distinct (head # xs)" using q by (simp add: queue_def)
  have nh: "get_next s head = Inr hn" using q by (simp add: hn_def queue_next_head)
  have ph: "get_prev s head = Inr hp" using q by (simp add: hp_def queue_prev_head)
  have hnin: "hn \<in> set (head # xs)" by (cases xs) (simp_all add: hn_def)
  have nodes: "is_node s p" if "p \<in> set (head # xs)" for p
    using queue_is_node[OF q that] .
  have "hn \<noteq> NULL" using nodes[OF hnin] by (rule is_node_nonnull)
  obtain safe where safe: "get_next s hn = Inr safe"
    using nodes[OF hnin] is_node_get_next by blast
  have fw: "successively (\<lambda>a b. get_next s a = Inr b) (xs @ [head])"
    using queue_forward[OF q] by (cases xs) (simp_all add: successively_Cons)
  have pre: "distinct xs" "head \<notin> set xs" "\<forall>p\<in>set xs. is_node s p"
    using d nodes by auto
  from q_reverse_loop_correct[OF pre fw hn_def safe nh]
  obtain s2 where
    loop: "q_reverse_loop head hn safe s = Some (Inr (head, hn, s2))"
    and flip: "\<forall>p\<in>set xs. get_next s2 p = get_prev s p \<and> get_prev s2 p = get_next s p"
    and keep: "\<forall>p. p \<notin> set xs \<longrightarrow> heap s2 p = heap s p"
    and fr: "get_value s2 = get_value s" "get_chars s2 = get_chars s"
      "dom (heap s2) = dom (heap s)" "alloc s2 = alloc s"
    by blast
  define s' where "s' = put_prev head hn (put_next head hp s2)"
  have hh: "heap s2 head = heap s head" using keep d by simp
  have n2: "is_node s2 head" "get_prev s2 head = Inr hp" "is_list_head s2 head"
    using heap_eq_get[OF hh] nodes[of head] ph q by (simp_all add: queue_def)
  have body: "q_reverse_body head hn s2 = Inr s'"
    unfolding s'_def using n2(2) by (rule q_reverse_body_put)
  have run: "q_reverse head s = Some (Inr s')"
    using nh \<open>hn \<noteq> NULL\<close> safe loop body by (simp add: q_reverse_def)
  have sw: "get_next s' p = get_prev s p \<and> get_prev s' p = get_next s p"
    if "p \<in> set (head # xs)" for p
  proof (cases "p = head")
    case True
    then show ?thesis using n2 nh ph
      by (simp add: s'_def get_next_put_next get_prev_put_prev)
  next
    case False
    then have "p \<in> set xs" using that by simp
    then show ?thesis using flip False
      by (simp add: s'_def get_next_put_next_other get_prev_put_prev_other)
  qed
  have "successively (link s') (rev (head # xs @ [head])) =
        successively (\<lambda>a b. link s' b a) (head # xs @ [head])"
    by (rule successively_rev)
  also have "\<dots> = successively (link s) (head # xs @ [head])"
    by (rule successively_cong) (use sw in \<open>auto simp: link_def\<close>)
  finally have "successively (link s') (head # rev xs @ [head])"
    using q by (simp add: queue_def)
  moreover have gv: "get_value s' = get_value s" "get_chars s' = get_chars s"
    using fr by (auto simp: s'_def fun_eq_iff)
  moreover have "is_list_head s' head" using n2 by (simp add: s'_def)
  ultimately have "queue s' head (rev xs)"
    using q elem_ok_cong[OF gv] value_ptr_cong[OF gv(1)]
    by (simp add: queue_def rev_map[symmetric] list_all_iff)
  moreover have "dom (heap s') = dom (heap s)" "alloc s' = alloc s"
    using fr by (simp_all add: s'_def)
  ultimately show ?thesis using run gv by blast
qed

text \<open>
  C7. On a well-formed queue \<open>q_reverse\<close> returns, the forward order afterwards is the
  reverse of the order before, a second call restores the original order, and neither
  call allocates or frees anything or touches a string.
\<close>

theorem q_reverse_involution:
  assumes "queue s head xs"
  shows "\<exists>s1 s2. q_reverse head s = Some (Inr s1) \<and> queue s1 head (rev xs) \<and>
           q_reverse head s1 = Some (Inr s2) \<and> queue s2 head xs \<and>
           dom (heap s1) = dom (heap s) \<and> dom (heap s2) = dom (heap s) \<and>
           alloc s1 = alloc s \<and> alloc s2 = alloc s \<and>
           elem_string s1 = elem_string s \<and> elem_string s2 = elem_string s"
proof -
  from q_reverse_queue[OF assms] obtain s1 where
    r1: "q_reverse head s = Some (Inr s1)" and q1: "queue s1 head (rev xs)"
    and f1: "get_value s1 = get_value s" "get_chars s1 = get_chars s"
      "dom (heap s1) = dom (heap s)" "alloc s1 = alloc s"
    by blast
  from q_reverse_queue[OF q1] obtain s2 where
    r2: "q_reverse head s1 = Some (Inr s2)" and q2: "queue s2 head (rev (rev xs))"
    and f2: "get_value s2 = get_value s1" "get_chars s2 = get_chars s1"
      "dom (heap s2) = dom (heap s1)" "alloc s2 = alloc s1"
    by blast
  have "elem_string s1 = elem_string s" "elem_string s2 = elem_string s"
    using elem_string_cong[OF f1(1,2)] elem_string_cong[OF f2(1,2)] by simp_all
  then show ?thesis using r1 q1 r2 q2 f1 f2 by simp
qed

theorem q_reverse_involution_witness:
  "queue dup_queue 1 [2, 3, 4, 5] \<and>
   (\<exists>s1 s2. q_reverse 1 dup_queue = Some (Inr s1) \<and> queue s1 1 (rev [2, 3, 4, 5]) \<and>
           q_reverse 1 s1 = Some (Inr s2) \<and> queue s2 1 [2, 3, 4, 5] \<and>
           dom (heap s1) = dom (heap dup_queue) \<and> dom (heap s2) = dom (heap dup_queue) \<and>
           alloc s1 = alloc dup_queue \<and> alloc s2 = alloc dup_queue \<and>
           elem_string s1 = elem_string dup_queue \<and> elem_string s2 = elem_string dup_queue)"
proof -
  have q: "queue dup_queue 1 [2, 3, 4, 5]"
    by (simp add: queue_def dup_queue_def is_list_head_def link_def get_next_def get_prev_def
        elem_ok_def get_value_def get_chars_def value_ptr_def)
  show ?thesis by (rule conjI[OF q q_reverse_involution[OF q]])
qed

section \<open>Pairwise swap\<close>

lemma successively_mid4:
  "successively P (A @ p # x # y # n # B) \<longleftrightarrow>
     successively P (A @ [p]) \<and> P p x \<and> P x y \<and> P y n \<and> successively P (n # B)"
  by (cases B) (auto simp: successively_append_iff successively_Cons)

lemma cycle_split4:
  "head # pre @ x # y # r @ [head] =
     butlast (head # pre) @ [last (head # pre), x, y, hd (r @ [head])] @ tl (r @ [head])"
  by (cases pre rule: rev_cases; cases r) auto

lemma queue_links_at:
  assumes q: "queue s head (pre @ x # r)"
  shows "link s (last (head # pre)) x" "link s x (hd (r @ [head]))"
proof -
  define p where "p = last (head # pre)"
  define n where "n = hd (r @ [head])"
  define A where "A = butlast (head # pre)"
  define B where "B = tl (r @ [head])"
  have cyc: "head # pre @ x # r @ [head] = A @ [p, x, n] @ B"
    using cycle_split3[of head pre x r] by (simp add: A_def p_def n_def B_def)
  have "successively (link s) (A @ [p, x, n] @ B)"
    using q unfolding cyc[symmetric] by (simp add: queue_def)
  then have "link s p x" "link s x n"
    by (simp_all add: successively_mid3)
  then show "link s (last (head # pre)) x" "link s x (hd (r @ [head]))"
    unfolding p_def n_def by blast+
qed

lemma queue_next_at:
  assumes "queue s head (pre @ x # r)"
  shows "get_next s x = Inr (hd (r @ [head]))"
  using queue_links_at(2)[OF assms] unfolding link_def by blast

lemma queue_prev_at:
  assumes "queue s head (pre @ x # r)"
  shows "get_prev s x = Inr (last (head # pre))"
  using queue_links_at(1)[OF assms] unfolding link_def by blast

text \<open>Exchanging the two nodes between p and n.\<close>

lemma swap_links:
  assumes L: "successively (link s) (A @ [p, x, y, n] @ B)"
    and nx: "\<forall>q. q \<noteq> p \<and> q \<noteq> x \<and> q \<noteq> y \<longrightarrow> get_next s' q = get_next s q"
    and pv: "\<forall>q. q \<noteq> n \<and> q \<noteq> x \<and> q \<noteq> y \<longrightarrow> get_prev s' q = get_prev s q"
    and new: "get_next s' p = Inr y" "get_prev s' y = Inr p" "get_next s' y = Inr x"
      "get_prev s' x = Inr y" "get_next s' x = Inr n" "get_prev s' n = Inr x"
    and d: "p \<notin> set A" "n \<notin> set (tl (A @ [p]))" "p \<notin> set (butlast (n # B))" "n \<notin> set B"
      "x \<notin> set A" "x \<notin> set B" "x \<noteq> p" "x \<noteq> n"
      "y \<notin> set A" "y \<notin> set B" "y \<noteq> p" "y \<noteq> n"
  shows "successively (link s') (A @ [p, y, x, n] @ B)"
proof -
  from L have 1: "successively (link s) (A @ [p])" and 2: "successively (link s) (n # B)"
    by (simp_all add: successively_mid4)
  have t: "set (tl (A @ [p])) \<subseteq> set A \<union> {p}"
    by (cases A) auto
  have b: "set (butlast (n # B)) \<subseteq> {n} \<union> set B"
    by (auto dest: in_set_butlastD)
  have "\<forall>q\<in>set (butlast (A @ [p])). q \<noteq> p \<and> q \<noteq> x \<and> q \<noteq> y" using d by auto
  moreover have "\<forall>q\<in>set (tl (A @ [p])). q \<noteq> n \<and> q \<noteq> x \<and> q \<noteq> y" using d t by blast
  ultimately have A: "successively (link s') (A @ [p]) = successively (link s) (A @ [p])"
    using nx pv by (intro successively_link_cong) blast+
  have "\<forall>q\<in>set (butlast (n # B)). q \<noteq> p \<and> q \<noteq> x \<and> q \<noteq> y" using d b by blast
  moreover have "\<forall>q\<in>set (tl (n # B)). q \<noteq> n \<and> q \<noteq> x \<and> q \<noteq> y" using d by auto
  ultimately have B: "successively (link s') (n # B) = successively (link s) (n # B)"
    using nx pv by (intro successively_link_cong) blast+
  show ?thesis using 1 2 A B new by (simp add: successively_mid4 link_def)
qed

lemma q_swap_body_queue:
  assumes q: "queue s head (pre @ x # y # r)"
  shows "\<exists>s'. q_swap_body x s = Inr (hd (r @ [head]), s') \<and> queue s' head (pre @ y # x # r) \<and>
           get_value s' = get_value s \<and> get_chars s' = get_chars s \<and>
           dom (heap s') = dom (heap s) \<and> alloc s' = alloc s"
proof -
  define p where "p = last (head # pre)"
  define n where "n = hd (r @ [head])"
  define A where "A = butlast (head # pre)"
  define B where "B = tl (r @ [head])"
  define s' where "s' = put_prev x y (put_next y x (put_next p y (put_prev y p
                          (put_prev n x (put_next x n s)))))"
  have d: "distinct (head # pre @ x # y # r)" using q by (simp add: queue_def)
  have pin: "p \<in> set (head # pre)" unfolding p_def by (rule last_in_set) simp
  have nin: "n \<in> set (r @ [head])" unfolding n_def by (rule hd_in_set) simp
  have ne: "x \<noteq> y" "x \<noteq> p" "x \<noteq> n" "y \<noteq> p" "y \<noteq> n" using d pin nin by auto
  have nodes: "is_node s p" "is_node s n" "is_node s x" "is_node s y"
    using pin nin by (auto intro!: queue_is_node[OF q])
  have xn: "get_next s x = Inr y" using queue_next_at[OF q] by simp
  have yn: "get_next s y = Inr n"
    using queue_next_at[of s head "pre @ [x]" y r] q by (simp add: n_def)
  have xp: "get_prev s x = Inr p" using queue_prev_at[OF q] by (simp add: p_def)
  have run: "q_swap_body x s = Inr (n, s')"
    using xn yn xp nodes ne
    by (simp add: q_swap_body_def s'_def set_next_put set_prev_put
        get_next_put_next get_prev_put_prev)
  have cyc: "head # pre @ x # y # r @ [head] = A @ [p, x, y, n] @ B"
    using cycle_split4[of head pre x y r] by (simp add: A_def p_def n_def B_def)
  have cyc': "head # pre @ y # x # r @ [head] = A @ [p, y, x, n] @ B"
    using cycle_split4[of head pre y x r] by (simp add: A_def p_def n_def B_def)
  have L: "successively (link s) (A @ [p, x, y, n] @ B)"
    using q unfolding cyc[symmetric] by (simp add: queue_def)
  have dist: "p \<notin> set A" "n \<notin> set (tl (A @ [p]))" "p \<notin> set (butlast (n # B))" "n \<notin> set B"
    using cycle_distinct[of head pre r] d by (simp_all add: A_def p_def n_def B_def)
  have xA: "x \<notin> set A" "y \<notin> set A" using d by (auto simp: A_def dest: in_set_butlastD)
  have xB: "x \<notin> set B" "y \<notin> set B" using d by (cases r; auto simp: B_def)+
  have "successively (link s') (A @ [p, y, x, n] @ B)"
  proof (rule swap_links[OF L])
    show "\<forall>q. q \<noteq> p \<and> q \<noteq> x \<and> q \<noteq> y \<longrightarrow> get_next s' q = get_next s q"
      by (simp add: s'_def get_next_put_next_other)
    show "\<forall>q. q \<noteq> n \<and> q \<noteq> x \<and> q \<noteq> y \<longrightarrow> get_prev s' q = get_prev s q"
      by (simp add: s'_def get_prev_put_prev_other)
    show "get_next s' p = Inr y" "get_prev s' y = Inr p" "get_next s' y = Inr x"
      "get_prev s' x = Inr y" "get_next s' x = Inr n" "get_prev s' n = Inr x"
      using nodes ne by (simp_all add: s'_def get_next_put_next get_prev_put_prev)
  qed (use dist xA xB ne in simp_all)
  then have "successively (link s') (head # pre @ y # x # r @ [head])"
    unfolding cyc' .
  moreover have gv: "get_value s' = get_value s" "get_chars s' = get_chars s"
    by (auto simp: s'_def fun_eq_iff)
  moreover have "is_list_head s' head = is_list_head s head" by (simp add: s'_def)
  ultimately have "queue s' head (pre @ y # x # r)"
    using q elem_ok_cong[OF gv] value_ptr_cong[OF gv(1)]
    by (auto simp: queue_def)
  moreover have "dom (heap s') = dom (heap s)" "alloc s' = alloc s"
    by (simp_all add: s'_def)
  ultimately show ?thesis using run gv unfolding n_def by blast
qed

lemma q_swap_loop_correct:
  assumes "queue s head (pre @ rest)" "first = hd (rest @ [head])"
  shows "\<exists>s'. q_swap_loop head first s = Some (Inr s') \<and>
           queue s' head (pre @ swap_pairs_spec rest) \<and>
           get_value s' = get_value s \<and> get_chars s' = get_chars s \<and>
           dom (heap s') = dom (heap s) \<and> alloc s' = alloc s"
  using assms
proof (induction rest arbitrary: pre s first rule: swap_pairs_spec.induct)
  case (3 x y r)
  have q: "queue s head (pre @ x # y # r)" using "3.prems" by simp
  have d: "distinct (head # pre @ x # y # r)" using q by (simp add: queue_def)
  have f: "first = x" "x \<noteq> head" "y \<noteq> head" using "3.prems" d by auto
  have xn: "get_next s x = Inr y" using queue_next_at[OF q] by simp
  from q_swap_body_queue[OF q] obtain s1 where
    body: "q_swap_body x s = Inr (hd (r @ [head]), s1)"
    and q1: "queue s1 head (pre @ y # x # r)"
    and f1: "get_value s1 = get_value s" "get_chars s1 = get_chars s"
      "dom (heap s1) = dom (heap s)" "alloc s1 = alloc s"
    by blast
  have step: "q_swap_loop head first s = q_swap_loop head (hd (r @ [head])) s1"
    using f xn body by (subst q_swap_loop.simps) simp
  have q1': "queue s1 head ((pre @ [y, x]) @ r)" using q1 by simp
  from "3.IH"[OF q1' refl] obtain s' where
    run: "q_swap_loop head (hd (r @ [head])) s1 = Some (Inr s')"
    and q': "queue s' head ((pre @ [y, x]) @ swap_pairs_spec r)"
    and f2: "get_value s' = get_value s1" "get_chars s' = get_chars s1"
      "dom (heap s') = dom (heap s1)" "alloc s' = alloc s1"
    by blast
  show ?case using step run q' f1 f2 by simp
next
  case 1
  then show ?case by (simp add: q_swap_loop.simps)
next
  case (2 x)
  have q: "queue s head (pre @ x # [])" using "2.prems" by simp
  have "x \<noteq> head" using q by (simp add: queue_def)
  moreover have "get_next s x = Inr head" using queue_next_at[OF q] by simp
  ultimately show ?case using "2.prems" by (simp add: q_swap_loop.simps)
qed

text \<open>
  C8. On a well-formed queue \<open>q_swap\<close> returns and leaves a well-formed (circular,
  doubly linked) queue whose order is the old one with each adjacent pair exchanged and
  a trailing unpaired element in place; the nodes are relinked, no string is touched and
  nothing is allocated or freed. For five elements the order \<open>[A, B, C, D, E]\<close> becomes
  \<open>[B, A, D, C, E]\<close>.
\<close>

theorem q_swap_pairs:
  assumes "queue s head xs"
  shows "\<exists>s'. q_swap head s = Some (Inr s') \<and> queue s' head (swap_pairs_spec xs) \<and>
           elem_string s' = elem_string s \<and> value_ptr s' = value_ptr s \<and>
           dom (heap s') = dom (heap s) \<and> alloc s' = alloc s \<and>
           (\<forall>a b c d e. xs = [a, b, c, d, e] \<longrightarrow> queue s' head [b, a, d, c, e])"
proof -
  have hn: "get_next s head = Inr (hd (xs @ [head]))"
    using assms by (rule queue_next_head)
  from q_swap_loop_correct[of s head "[]" xs, OF _ refl] assms obtain s' where
    run: "q_swap_loop head (hd (xs @ [head])) s = Some (Inr s')"
    and q': "queue s' head (swap_pairs_spec xs)"
    and f: "get_value s' = get_value s" "get_chars s' = get_chars s"
      "dom (heap s') = dom (heap s)" "alloc s' = alloc s"
    by auto
  have "q_swap head s = Some (Inr s')" using hn run by (simp add: q_swap_def)
  moreover have "\<forall>a b c d e. xs = [a, b, c, d, e] \<longrightarrow> queue s' head [b, a, d, c, e]"
    using q' by auto
  ultimately show ?thesis
    using q' f elem_string_cong[OF f(1,2)] value_ptr_cong[OF f(1)] by blast
qed

theorem q_swap_pairs_witness:
  "queue five_queue 1 [2, 3, 4, 5, 6] \<and>
   map (elem_string five_queue) [2, 3, 4, 5, 6] = [''A'', ''B'', ''C'', ''D'', ''E''] \<and>
   (\<exists>s'. q_swap 1 five_queue = Some (Inr s') \<and> queue s' 1 [3, 2, 5, 4, 6] \<and>
      map (elem_string s') [3, 2, 5, 4, 6] = [''B'', ''A'', ''D'', ''C'', ''E''])"
proof -
  have q: "queue five_queue 1 [2, 3, 4, 5, 6]"
    by (simp add: queue_def five_queue_def is_list_head_def link_def get_next_def get_prev_def
        elem_ok_def get_value_def get_chars_def value_ptr_def)
  have e: "map (elem_string five_queue) [2, 3, 4, 5, 6] = [''A'', ''B'', ''C'', ''D'', ''E'']"
    "map (elem_string five_queue) [3, 2, 5, 4, 6] = [''B'', ''A'', ''D'', ''C'', ''E'']"
    by (simp_all add: five_queue_def elem_string_def get_value_def get_chars_def value_ptr_def
        cstr_def NUL_def)
  from q_swap_pairs[OF q] obtain s' where
    "q_swap 1 five_queue = Some (Inr s')" "queue s' 1 [3, 2, 5, 4, 6]"
    "elem_string s' = elem_string five_queue"
    by auto
  then show ?thesis using q e by auto
qed

section \<open>Deleting the middle element\<close>

lemma q_delete_mid_loop_correct:
  assumes fw: "successively (\<lambda>a b. get_next s a = Inr b) (xs @ [head])"
    and d: "distinct (xs @ [head])"
    and i: "2 * i \<le> length xs"
  shows "q_delete_mid_loop head ((xs @ [head]) ! i) ((xs @ [head]) ! (2 * i)) s =
           Some (Inr ((xs @ [head]) ! (length xs div 2)))"
  using i
proof (induction "length xs - 2 * i" arbitrary: i rule: less_induct)
  case less
  define L where "L = xs @ [head]"
  have len: "length L = Suc (length xs)" by (simp add: L_def)
  have dL: "distinct L" using d by (simp add: L_def)
  have nxt: "get_next s (L ! j) = Inr (L ! Suc j)" if "j < length xs" for j
    using successively_nth[OF fw, of j] that by (simp add: L_def)
  have hd_iff: "L ! j = head \<longleftrightarrow> j = length xs" if "j \<le> length xs" for j
  proof -
    have "L ! length xs = head" by (simp add: L_def)
    then show ?thesis
      using nth_eq_iff_index_eq[OF dL, of j "length xs"] that len by auto
  qed
  show ?case
  proof (cases "2 * i = length xs")
    case True
    then have "L ! (2 * i) = head" using hd_iff[of "2 * i"] by simp
    moreover have "length xs div 2 = i" using True by auto
    ultimately show ?thesis
      unfolding L_def[symmetric] by (subst q_delete_mid_loop.simps) simp
  next
    case False
    then have lt: "2 * i < length xs" using less.prems by simp
    then have ne: "L ! (2 * i) \<noteq> head" using hd_iff[of "2 * i"] by simp
    have sn: "get_next s (L ! (2 * i)) = Inr (L ! Suc (2 * i))" using nxt lt by simp
    show ?thesis
    proof (cases "Suc (2 * i) = length xs")
      case True
      then have "L ! Suc (2 * i) = head" using hd_iff[of "Suc (2 * i)"] by simp
      moreover have "length xs div 2 = i" using True by presburger
      ultimately show ?thesis
        unfolding L_def[symmetric] using ne sn by (subst q_delete_mid_loop.simps) simp
    next
      case F2: False
      then have lt2: "Suc (2 * i) < length xs" using lt by simp
      then have ne2: "L ! Suc (2 * i) \<noteq> head" using hd_iff[of "Suc (2 * i)"] by simp
      have f': "get_next s (L ! i) = Inr (L ! Suc i)" using nxt[of i] lt by simp
      have s': "get_next s (L ! Suc (2 * i)) = Inr (L ! (2 * Suc i))"
        using nxt[of "Suc (2 * i)"] lt2 by simp
      have "q_delete_mid_loop head (L ! i) (L ! (2 * i)) s =
            q_delete_mid_loop head (L ! Suc i) (L ! (2 * Suc i)) s"
        using ne sn ne2 f' s' by (subst q_delete_mid_loop.simps) simp
      also have "\<dots> = Some (Inr (L ! (length xs div 2)))"
        unfolding L_def using lt2 by (intro less.hyps) auto
      finally show ?thesis unfolding L_def .
    qed
  qed
qed

lemma free_ok:
  "p \<noteq> NULL \<Longrightarrow> heap s p = Some ob \<Longrightarrow> free p s = Inr (s\<lparr>heap := (heap s)(p := None)\<rparr>)"
  by (simp add: free_def)

lemma is_node_heap: "is_node s p \<Longrightarrow> \<exists>ob. heap s p = Some ob"
  by (auto simp: is_node_cases)

lemma get_chars_heap: "get_chars s p = Inr b \<Longrightarrow> p \<noteq> NULL \<and> heap s p = Some (Chars b)"
  by (auto simp: get_chars_def split: if_splits option.splits obj.splits)

text \<open>Unlinking and releasing one element of a queue.\<close>

lemma delete_element_queue:
  assumes q: "queue s head (pre @ x # r)"
  shows "\<exists>s'. bindf (list_del x s) (\<lambda>s1. bindf (q_release_element x s1) (\<lambda>s2. Inr (True, s2)))
             = Inr (True, s') \<and>
           queue s' head (pre @ r) \<and>
           heap s' x = None \<and> heap s' (value_ptr s x) = None \<and>
           dom (heap s') = dom (heap s) - {x, value_ptr s x} \<and> alloc s' = alloc s \<and>
           (\<forall>p\<in>set (pre @ r). elem_string s' p = elem_string s p)"
proof -
  from list_del_queue[OF q] obtain s1 where
    del: "list_del x s = Inr s1" and q1: "queue s1 head (pre @ r)"
    and f1: "get_value s1 = get_value s" "get_chars s1 = get_chars s"
      "dom (heap s1) = dom (heap s)" "alloc s1 = alloc s"
    and xn: "get_next s1 x = get_next s x"
    by blast
  define v where "v = value_ptr s x"
  have xin: "x \<in> set (pre @ x # r)" by simp
  have okx: "elem_ok s x" using queue_elem_ok[OF q xin] .
  then obtain b where gv: "get_value s x = Inr v" and gc: "get_chars s v = Inr b"
    by (auto simp: v_def value_ptr_def dest: elem_okD)
  have nx: "is_node s1 x"
    using xn queue_is_node[OF q, of x] by (simp add: is_node_def)
  have hv: "v \<noteq> NULL" "heap s1 v = Some (Chars b)"
    using get_chars_heap[of s1 v b] gc f1 by simp_all
  have xv: "x \<noteq> v" using nx hv by (auto simp: is_node_cases)
  obtain ob where hx: "heap s1 x = Some ob" using is_node_heap[OF nx] by blast
  define s2 where "s2 = s1\<lparr>heap := (heap s1)(v := None)\<rparr>"
  define s' where "s' = s2\<lparr>heap := (heap s2)(x := None)\<rparr>"
  have fv: "free v s1 = Inr s2" unfolding s2_def using hv by (rule free_ok)
  have fx: "free x s2 = Inr s'"
    unfolding s'_def using is_node_nonnull[OF nx] hx xv by (intro free_ok) (simp_all add: s2_def)
  have run: "bindf (list_del x s) (\<lambda>s1. bindf (q_release_element x s1) (\<lambda>s2. Inr (True, s2)))
             = Inr (True, s')"
    using del gv f1 fv fx by (simp add: q_release_element_def)
  have hs: "heap s' p = (if p = x \<or> p = v then None else heap s1 p)" for p
    by (simp add: s'_def s2_def)
  have d: "distinct (head # pre @ x # r)" "distinct (map (value_ptr s) (pre @ x # r))"
    using q by (simp_all add: queue_def)
  have vp1: "value_ptr s1 = value_ptr s" using f1(1) by (rule value_ptr_cong)
  have vne: "value_ptr s p \<noteq> value_ptr s x" if "p \<in> set (pre @ r)" for p
  proof -
    have inj: "inj_on (value_ptr s) (set (pre @ x # r))"
      using d(2) by (simp only: distinct_map)
    have mem: "p \<in> set (pre @ x # r)" "x \<in> set (pre @ x # r)" "p \<noteq> x"
      using that d(1) by auto
    show ?thesis using inj_onD[OF inj _ mem(1,2)] mem(3) by blast
  qed
  have q': "queue s' head (pre @ r)"
  proof (rule queue_frame[OF q1])
    show "\<forall>p\<in>set (head # pre @ r). heap s' p = heap s1 p"
    proof
      fix p assume p: "p \<in> set (head # pre @ r)"
      then have "is_node s1 p" using queue_is_node[OF q1] by blast
      then have "p \<noteq> v" using hv by (auto simp: is_node_cases)
      moreover have "p \<noteq> x" using p d by auto
      ultimately show "heap s' p = heap s1 p" by (simp add: hs)
    qed
    show "\<forall>p\<in>set (pre @ r). heap s' (value_ptr s1 p) = heap s1 (value_ptr s1 p)"
    proof
      fix p assume p: "p \<in> set (pre @ r)"
      have "\<not> is_node s1 (value_ptr s1 p)" using queue_value_not_node[OF q1 p] .
      then have "value_ptr s1 p \<noteq> x" using nx by auto
      moreover have "value_ptr s p \<noteq> value_ptr s x"
        using vne[OF p] .
      ultimately show "heap s' (value_ptr s1 p) = heap s1 (value_ptr s1 p)"
        by (simp add: hs vp1 v_def)
    qed
  qed
  have es: "elem_string s' p = elem_string s p" if p: "p \<in> set (pre @ r)" for p
  proof -
    have "is_node s1 p" using queue_is_node[OF q1, of p] p by simp
    then have "p \<noteq> v" using hv by (auto simp: is_node_cases)
    moreover have "p \<noteq> x" using p d by auto
    ultimately have "heap s' p = heap s1 p" by (simp add: hs)
    then have 1: "value_ptr s' p = value_ptr s p"
      using heap_eq_get(3)[of s' p s1] f1 by (simp add: value_ptr_def)
    have "\<not> is_node s1 (value_ptr s1 p)" using queue_value_not_node[OF q1 p] .
    then have "value_ptr s p \<noteq> x" using nx vp1 by auto
    moreover have "value_ptr s p \<noteq> v"
      using vne[OF p] by (simp add: v_def)
    ultimately have "heap s' (value_ptr s p) = heap s1 (value_ptr s p)" by (simp add: hs)
    then have "get_chars s' (value_ptr s p) = get_chars s (value_ptr s p)"
      using heap_eq_get(4)[of s' "value_ptr s p" s1] f1 by simp
    then show ?thesis using 1 by (simp add: elem_string_def)
  qed
  have "dom (heap s') = dom (heap s1) - {x, v}"
    by (auto simp: hs split: if_splits)
  then have "dom (heap s') = dom (heap s) - {x, v}"
    using f1(3) by simp
  moreover have "alloc s' = alloc s" using f1 by (simp add: s'_def s2_def)
  moreover have "heap s' x = None" "heap s' v = None" by (simp_all add: hs)
  ultimately show ?thesis using run q' es unfolding v_def by blast
qed

lemma q_delete_mid_queue:
  assumes q: "queue s head xs" and ne: "xs \<noteq> []"
  defines "k \<equiv> length xs div 2"
  shows "\<exists>s'. q_delete_mid head s = Some (Inr (True, s')) \<and>
           queue s' head (take k xs @ drop (Suc k) xs) \<and>
           heap s' (xs ! k) = None \<and> heap s' (value_ptr s (xs ! k)) = None \<and>
           dom (heap s') = dom (heap s) - {xs ! k, value_ptr s (xs ! k)} \<and>
           alloc s' = alloc s \<and>
           (\<forall>p\<in>set (take k xs @ drop (Suc k) xs). elem_string s' p = elem_string s p)"
proof -
  have klt: "k < length xs" using ne by (simp add: k_def)
  have split: "xs = take k xs @ xs ! k # drop (Suc k) xs"
    using klt by (rule id_take_nth_drop)
  have d: "distinct (head # xs)" "head \<noteq> NULL"
    using q by (simp_all add: queue_def is_list_head_def)
  have hn: "get_next s head = Inr (hd xs)"
    using queue_next_head[OF q] ne by simp
  have hne: "hd xs \<noteq> head" using d ne by (cases xs) auto
  have fw: "successively (\<lambda>a b. get_next s a = Inr b) (xs @ [head])"
    using queue_forward[OF q] by (cases xs) (simp_all add: successively_Cons)
  have dl: "distinct (xs @ [head])" using d by simp
  have l0: "(xs @ [head]) ! 0 = hd xs" using ne by (cases xs) simp_all
  have lk: "(xs @ [head]) ! (length xs div 2) = xs ! k"
    using klt by (simp add: nth_append k_def)
  have loop: "q_delete_mid_loop head (hd xs) (hd xs) s = Some (Inr (xs ! k))"
    using q_delete_mid_loop_correct[OF fw dl, of 0] l0 lk by simp
  have q': "queue s head (take k xs @ xs ! k # drop (Suc k) xs)"
    using q split by simp
  from delete_element_queue[OF q'] obtain s' where
    run: "bindf (list_del (xs ! k) s)
            (\<lambda>s1. bindf (q_release_element (xs ! k) s1) (\<lambda>s2. Inr (True, s2))) = Inr (True, s')"
    and rest: "queue s' head (take k xs @ drop (Suc k) xs)"
      "heap s' (xs ! k) = None" "heap s' (value_ptr s (xs ! k)) = None"
      "dom (heap s') = dom (heap s) - {xs ! k, value_ptr s (xs ! k)}" "alloc s' = alloc s"
      "\<forall>p\<in>set (take k xs @ drop (Suc k) xs). elem_string s' p = elem_string s p"
    by blast
  have "q_delete_mid head s = Some (Inr (True, s'))"
    using d hn hne loop run by (simp add: q_delete_mid_def list_empty_def)
  then show ?thesis using rest by blast
qed

text \<open>
  C6. \<open>q_delete_mid\<close> returns false on an absent queue and on an empty queue, changing
  nothing. On a well-formed queue of \<open>n > 0\<close> elements it returns true, the element at
  0-based position \<open>n div 2\<close> is unlinked and released together with its string, and the
  other elements stay, in order, in a well-formed queue. For \<open>n = 1\<close> that is the
  single element and for \<open>n = 6\<close> the element at index 3.
\<close>

theorem q_delete_mid_removes_middle:
  assumes "queue s head xs"
  shows "q_delete_mid NULL s = Some (Inr (False, s)) \<and>
         (if xs = [] then q_delete_mid head s = Some (Inr (False, s))
          else \<exists>s'. q_delete_mid head s = Some (Inr (True, s')) \<and>
                 queue s' head (take (length xs div 2) xs @ drop (Suc (length xs div 2)) xs) \<and>
                 heap s' (xs ! (length xs div 2)) = None \<and>
                 heap s' (value_ptr s (xs ! (length xs div 2))) = None \<and>
                 dom (heap s') =
                   dom (heap s) - {xs ! (length xs div 2), value_ptr s (xs ! (length xs div 2))} \<and>
                 alloc s' = alloc s \<and>
                 (\<forall>p\<in>set (take (length xs div 2) xs @ drop (Suc (length xs div 2)) xs).
                    elem_string s' p = elem_string s p))"
proof (cases "xs = []")
  case True
  have "head \<noteq> NULL" using assms by (simp add: queue_def is_list_head_def)
  moreover have "get_next s head = Inr head"
    using queue_next_head[OF assms] True by simp
  ultimately show ?thesis using True
    by (simp add: q_delete_mid_def list_empty_def)
next
  case False
  have "q_delete_mid NULL s = Some (Inr (False, s))" by (simp add: q_delete_mid_def)
  then show ?thesis using q_delete_mid_queue[OF assms False] False by simp
qed

theorem q_delete_mid_removes_middle_witness:
  "queue six_queue 1 [2, 3, 4, 5, 6, 7] \<and>
   map (elem_string six_queue) [2, 3, 4, 5, 6, 7] = [''A'', ''B'', ''C'', ''D'', ''E'', ''F''] \<and>
   (\<exists>s'. q_delete_mid 1 six_queue = Some (Inr (True, s')) \<and> queue s' 1 [2, 3, 4, 6, 7] \<and>
      heap s' 5 = None \<and> heap s' 15 = None \<and>
      map (elem_string s') [2, 3, 4, 6, 7] = [''A'', ''B'', ''C'', ''E'', ''F''])"
proof -
  have q: "queue six_queue 1 [2, 3, 4, 5, 6, 7]"
    by (simp add: queue_def six_queue_def is_list_head_def link_def get_next_def get_prev_def
        elem_ok_def get_value_def get_chars_def value_ptr_def)
  have e: "map (elem_string six_queue) [2, 3, 4, 5, 6, 7] = [''A'', ''B'', ''C'', ''D'', ''E'', ''F'']"
    by (simp add: six_queue_def elem_string_def get_value_def get_chars_def value_ptr_def
        cstr_def NUL_def)
  have v: "value_ptr six_queue 5 = 15"
    by (simp add: six_queue_def value_ptr_def get_value_def)
  have k: "length [2::nat, 3, 4, 5, 6, 7] div 2 = 3" by simp
  from q_delete_mid_removes_middle[OF q] obtain s' where
    "q_delete_mid 1 six_queue = Some (Inr (True, s'))" "queue s' 1 [2, 3, 4, 6, 7]"
    "heap s' 5 = None" "heap s' 15 = None"
    "\<forall>p\<in>set [2, 3, 4, 6, 7]. elem_string s' p = elem_string six_queue p"
    unfolding k by (auto simp: v)
  then show ?thesis using q e by auto
qed

section \<open>The order of strings\<close>

lemma strcmp_bytes_refl: "strcmp_bytes a a = 0"
  by (induction a) simp_all

lemma strcmp_bytes_eq: "strcmp_bytes a b = 0 \<Longrightarrow> a = b"
  by (induction a b rule: strcmp_bytes.induct) (auto split: if_splits)

lemma strcmp_bytes_flip: "strcmp_bytes a b < 0 \<longleftrightarrow> strcmp_bytes b a > 0"
  by (induction a b rule: strcmp_bytes.induct) auto

lemma str_le_total: "\<not> strcmp_bytes a b < 0 \<Longrightarrow> str_le b a"
proof (cases "strcmp_bytes a b = 0")
  case True
  then have "a = b" by (rule strcmp_bytes_eq)
  then show ?thesis by (simp add: str_le_def strcmp_bytes_refl)
next
  case False
  assume "\<not> strcmp_bytes a b < 0"
  then have "strcmp_bytes a b > 0" using False by simp
  then have "strcmp_bytes b a < 0" by (simp add: strcmp_bytes_flip[of b a])
  then show ?thesis by (simp add: str_le_def)
qed

lemma str_le_less: "strcmp_bytes a b < 0 \<Longrightarrow> str_le a b"
  by (simp add: str_le_def)

lemma str_le_antisym: "str_le a b \<Longrightarrow> str_le b a \<Longrightarrow> a = b"
  unfolding str_le_def using strcmp_bytes_flip[of a b] strcmp_bytes_eq[of a b] by force

lemma str_le_trans: "str_le a b \<Longrightarrow> str_le b c \<Longrightarrow> str_le a c"
  unfolding str_le_def
proof (induction a b arbitrary: c rule: strcmp_bytes.induct)
  case 1
  then show ?case by simp
next
  case (2 d ds)
  then show ?case by (cases c) (auto split: if_splits)
next
  case (3 c' cs)
  then show ?case by simp
next
  case (4 x xs y ys)
  show ?case
  proof (cases c)
    case Nil
    then show ?thesis using 4 by (auto split: if_splits)
  next
    case (Cons z zs)
    then show ?thesis using 4 by (auto split: if_splits)
  qed
qed

section \<open>Merging and sorting lists\<close>

lemma mset_merge_list: "mset (merge_list key xs ys) = mset xs + mset ys"
  by (induction key xs ys rule: merge_list.induct) auto

lemma set_merge_list: "set (merge_list key xs ys) = set xs \<union> set ys"
  using mset_merge_list[of key xs ys] by (metis set_mset_mset set_mset_union)

lemma sorted_merge_list:
  "sorted_wrt (\<lambda>a b. str_le (key a) (key b)) xs \<Longrightarrow>
   sorted_wrt (\<lambda>a b. str_le (key a) (key b)) ys \<Longrightarrow>
   sorted_wrt (\<lambda>a b. str_le (key a) (key b)) (merge_list key xs ys)"
proof (induction key xs ys rule: merge_list.induct)
  case (3 key x xs y ys)
  show ?case
  proof (cases "strcmp_bytes (key x) (key y) < 0")
    case True
    then have xy: "str_le (key x) (key y)" by (rule str_le_less)
    have "\<forall>z\<in>set (y # ys). str_le (key x) (key z)"
      using xy "3.prems"(2) by (auto intro: str_le_trans)
    then show ?thesis using True 3 by (auto simp: set_merge_list)
  next
    case False
    then have yx: "str_le (key y) (key x)" by (rule str_le_total)
    have "\<forall>z\<in>set (x # xs). str_le (key y) (key z)"
      using yx "3.prems"(1) by (auto intro: str_le_trans)
    then show ?thesis using False 3 by (auto simp: set_merge_list)
  qed
qed simp_all

declare msort_list.simps [simp del]

lemma mset_msort_list: "mset (msort_list key xs) = mset xs"
proof (induction key xs rule: msort_list.induct)
  case (1 key xs)
  show ?case
  proof (cases "length xs \<le> 1")
    case True
    then show ?thesis by (simp add: msort_list.simps)
  next
    case False
    have "mset (msort_list key xs) =
            mset (take ((length xs + 1) div 2) xs) + mset (drop ((length xs + 1) div 2) xs)"
      using False 1 by (subst msort_list.simps) (simp add: mset_merge_list)
    also have "\<dots> = mset (take ((length xs + 1) div 2) xs @ drop ((length xs + 1) div 2) xs)"
      by (simp only: mset_append)
    also have "\<dots> = mset xs"
      by (simp only: append_take_drop_id)
    finally show ?thesis .
  qed
qed

lemma set_msort_list: "set (msort_list key xs) = set xs"
  using mset_msort_list[of key xs] by (metis set_mset_mset)

lemma distinct_msort_list: "distinct (msort_list key xs) = distinct xs"
  using mset_msort_list[of key xs] by (metis mset_eq_imp_distinct_iff)

lemma sorted_msort_list: "sorted_wrt (\<lambda>a b. str_le (key a) (key b)) (msort_list key xs)"
proof (induction key xs rule: msort_list.induct)
  case (1 key xs)
  show ?case
  proof (cases "length xs \<le> 1")
    case True
    then have eq: "msort_list key xs = xs" by (subst msort_list.simps) simp
    have "xs = [] \<or> (\<exists>x. xs = [x])" using True by (cases xs) auto
    then have "sorted_wrt (\<lambda>a b. str_le (key a) (key b)) xs" by auto
    then show ?thesis unfolding eq .
  next
    case False
    have L: "sorted_wrt (\<lambda>a b. str_le (key a) (key b))
               (msort_list key (take ((length xs + 1) div 2) xs))"
      using False by (rule "1.IH"(1))
    have R: "sorted_wrt (\<lambda>a b. str_le (key a) (key b))
               (msort_list key (drop ((length xs + 1) div 2) xs))"
      using False by (rule "1.IH"(2))
    have eq: "msort_list key xs =
        merge_list key (msort_list key (take ((length xs + 1) div 2) xs))
                       (msort_list key (drop ((length xs + 1) div 2) xs))"
      using False by (subst msort_list.simps) simp
    show ?thesis unfolding eq by (rule sorted_merge_list[OF L R])
  qed
qed

text \<open>Two sorted lists of strings with the same members are equal.\<close>

lemma sorted_strings_unique:
  assumes "sorted_wrt str_le as" "sorted_wrt str_le bs" "mset as = mset bs"
  shows "as = bs"
  using assms
proof (induction as arbitrary: bs)
  case Nil
  then show ?case by simp
next
  case (Cons a as)
  then obtain b bs' where bs: "bs = b # bs'" by (cases bs) auto
  have ain: "a \<in> set bs" using Cons.prems(3) by (metis list.set_intros(1) set_mset_mset)
  have bin: "b \<in> set (a # as)"
    using Cons.prems(3) bs by (metis list.set_intros(1) set_mset_mset)
  have "str_le a b"
    using bin Cons.prems(1) by (auto simp: str_le_def strcmp_bytes_refl)
  moreover have "str_le b a"
    using ain Cons.prems(2) bs by (auto simp: str_le_def strcmp_bytes_refl)
  ultimately have "a = b" by (rule str_le_antisym)
  then show ?case using Cons bs by simp
qed

lemma msort_list_sorted_keys:
  assumes "sorted_wrt (\<lambda>a b. str_le (key a) (key b)) xs"
  shows "map key (msort_list key xs) = map key xs"
proof (rule sorted_strings_unique)
  show "sorted_wrt str_le (map key (msort_list key xs))"
    using sorted_msort_list[of key xs] by (simp add: sorted_wrt_map)
  show "sorted_wrt str_le (map key xs)"
    using assms by (simp add: sorted_wrt_map)
  show "mset (map key (msort_list key xs)) = mset (map key xs)"
    using mset_msort_list[of key xs] by (metis mset_map)
qed

section \<open>Chains and frames\<close>

lemma link_frame_refl: "link_frame S s s"
  by (simp add: link_frame_def)

lemma link_frame_trans:
  "link_frame S s s1 \<Longrightarrow> link_frame T s1 s2 \<Longrightarrow> link_frame (S \<union> T) s s2"
  by (simp add: link_frame_def)

lemma link_frame_mono: "link_frame S s s' \<Longrightarrow> S \<subseteq> T \<Longrightarrow> link_frame T s s'"
  by (auto simp: link_frame_def)

lemma link_frame_put_next: "link_frame {p} s (put_next p x s)"
  by (auto simp: link_frame_def heap_put_next_other)

lemma link_frame_put_prev: "link_frame {p} s (put_prev p x s)"
  by (auto simp: link_frame_def heap_put_prev_other)

lemma link_frame_get:
  assumes "link_frame S s s'" "p \<notin> S"
  shows "get_next s' p = get_next s p" "get_prev s' p = get_prev s p"
proof -
  have "heap s' p = heap s p" using assms by (simp add: link_frame_def)
  then show "get_next s' p = get_next s p" "get_prev s' p = get_prev s p"
    by (rule heap_eq_get)+
qed

lemma link_frame_elem:
  assumes "link_frame S s s'"
  shows "elem_ok s' = elem_ok s" "elem_string s' = elem_string s" "value_ptr s' = value_ptr s"
proof -
  have g: "get_value s' = get_value s" "get_chars s' = get_chars s"
    using assms by (simp_all add: link_frame_def)
  show "elem_ok s' = elem_ok s" using g by (rule elem_ok_cong)
  show "elem_string s' = elem_string s" using g by (rule elem_string_cong)
  show "value_ptr s' = value_ptr s" using g(1) by (rule value_ptr_cong)
qed

lemma link_frame_is_node: "link_frame S s s' \<Longrightarrow> is_node s' p = is_node s p"
  by (simp add: link_frame_def)

lemma chain_cong:
  "chain s p xs \<Longrightarrow> \<forall>x\<in>set xs. get_next s' x = get_next s x \<Longrightarrow> chain s' p xs"
  by (induction xs arbitrary: p) (auto split: sum.splits)

lemma chain_frame:
  assumes "chain s p xs" "link_frame S s s'" "S \<inter> set xs = {}"
  shows "chain s' p xs"
proof (rule chain_cong[OF assms(1)])
  show "\<forall>x\<in>set xs. get_next s' x = get_next s x"
    using assms(2,3) by (auto intro!: link_frame_get(1))
qed

lemma chain_is_node: "chain s p xs \<Longrightarrow> x \<in> set xs \<Longrightarrow> is_node s x"
  by (induction xs arbitrary: p) (auto split: sum.splits intro: get_next_is_node)

lemma chain_Cons:
  "chain s p (x # xs) \<longleftrightarrow> p = x \<and> (\<exists>n. get_next s x = Inr n \<and> chain s n xs)"
  by (auto split: sum.splits)

lemma chain_Nil_iff: "chain s NULL xs \<longleftrightarrow> xs = []"
  by (cases xs) (auto simp: get_next_def)

lemma cmp_entries_ok:
  assumes "elem_ok s x" "elem_ok s y"
  shows "cmp_entries s x y = Inr (strcmp_bytes (elem_string s x) (elem_string s y))"
proof -
  obtain v b where x: "get_value s x = Inr v" "get_chars s v = Inr b"
    using assms(1) by (blast dest: elem_okD)
  obtain w c where y: "get_value s y = Inr w" "get_chars s w = Inr c"
    using assms(2) by (blast dest: elem_okD)
  show ?thesis using x y
    by (simp add: cmp_entries_def strcmp_def elem_string_def value_ptr_def)
qed

section \<open>The merge step\<close>

lemma store_ok:
  assumes "case ptr of NewHead \<Rightarrow> True | NextField a \<Rightarrow> is_node s a"
  shows "\<exists>nh1 s1. store ptr v (nh, s) = Inr (nh1, s1) \<and> load ptr (nh1, s1) = Inr v \<and>
           (ptr \<noteq> NewHead \<longrightarrow> nh1 = nh) \<and> link_frame (loc_nodes ptr) s s1 \<and>
           get_prev s1 = get_prev s"
proof (cases ptr)
  case NewHead
  then show ?thesis by (simp add: store_def load_def link_frame_refl)
next
  case (NextField a)
  then have n: "is_node s a" using assms by simp
  have "get_prev (put_next a v s) = get_prev s" by (rule ext) simp
  then show ?thesis using NextField n
    by (simp add: store_def load_def set_next_put get_next_put_next link_frame_put_next)
qed

lemma load_frame:
  assumes "load ptr (nh1, s1) = Inr v" "link_frame S s1 s'" "loc_nodes ptr \<inter> S = {}"
    and "ptr = NewHead \<longrightarrow> nh' = nh1"
  shows "load ptr (nh', s') = Inr v"
proof (cases ptr)
  case NewHead
  then show ?thesis using assms by (simp add: load_def)
next
  case (NextField a)
  then have "a \<notin> S" using assms(3) by simp
  then have "get_next s' a = get_next s1 a" using assms(2) by (intro link_frame_get(1))
  then show ?thesis using assms(1) NextField by (simp add: load_def)
qed

lemma merge_loop_correct:
  assumes "chain s first xs" "chain s second ys" "distinct (xs @ ys)"
    and "\<forall>x\<in>set (xs @ ys). elem_ok s x \<and> elem_string s x = key x"
    and "case ptr of NewHead \<Rightarrow> True | NextField a \<Rightarrow> is_node s a \<and> a \<notin> set (xs @ ys)"
  shows "\<exists>nh' s' r. merge_loop first second nh ptr s = Some (Inr (nh', s')) \<and>
           load ptr (nh', s') = Inr r \<and> chain s' r (merge_list key xs ys) \<and>
           (ptr \<noteq> NewHead \<longrightarrow> nh' = nh) \<and>
           link_frame (set xs \<union> set ys \<union> loc_nodes ptr) s s' \<and> get_prev s' = get_prev s"
  using assms
proof (induction key xs ys arbitrary: first second nh ptr s rule: merge_list.induct)
  case (1 key ys)
  have f: "first = NULL" using "1.prems"(1) by simp
  have pk: "case ptr of NewHead \<Rightarrow> True | NextField a \<Rightarrow> is_node s a"
    using "1.prems"(5) by (cases ptr) auto
  from store_ok[OF pk, of second nh] obtain nh1 s1 where
    st: "store ptr second (nh, s) = Inr (nh1, s1)" and ld: "load ptr (nh1, s1) = Inr second"
    and nh: "ptr \<noteq> NewHead \<longrightarrow> nh1 = nh" and fr: "link_frame (loc_nodes ptr) s s1"
    and pv: "get_prev s1 = get_prev s"
    by blast
  have run: "merge_loop first second nh ptr s = Some (Inr (nh1, s1))"
    using f st by (subst merge_loop.simps) simp
  have "loc_nodes ptr \<inter> set ys = {}" using "1.prems"(5) by (cases ptr) auto
  then have c: "chain s1 second (merge_list key [] ys)"
    using chain_frame[OF "1.prems"(2) fr] by simp
  have "link_frame (set [] \<union> set ys \<union> loc_nodes ptr) s s1"
    using fr by (rule link_frame_mono) auto
  then show ?case using run ld nh pv c by blast
next
  case (2 key x xs)
  have f: "second = NULL" using "2.prems"(2) by simp
  have pk: "case ptr of NewHead \<Rightarrow> True | NextField a \<Rightarrow> is_node s a"
    using "2.prems"(5) by (cases ptr) auto
  from store_ok[OF pk, of first nh] obtain nh1 s1 where
    st: "store ptr first (nh, s) = Inr (nh1, s1)" and ld: "load ptr (nh1, s1) = Inr first"
    and nh: "ptr \<noteq> NewHead \<longrightarrow> nh1 = nh" and fr: "link_frame (loc_nodes ptr) s s1"
    and pv: "get_prev s1 = get_prev s"
    by blast
  have run: "merge_loop first second nh ptr s = Some (Inr (nh1, s1))"
    using f st by (subst merge_loop.simps) simp
  have "loc_nodes ptr \<inter> set (x # xs) = {}" using "2.prems"(5) by (cases ptr) auto
  then have c: "chain s1 first (merge_list key (x # xs) [])"
    using chain_frame[OF "2.prems"(1) fr] by simp
  have "link_frame (set (x # xs) \<union> set [] \<union> loc_nodes ptr) s s1"
    using fr by (rule link_frame_mono) auto
  then show ?case using run ld nh pv c by blast
next
  case (3 key x xs y ys)
  obtain n where fx: "first = x" "get_next s x = Inr n" "chain s n xs"
    using chain_Cons[THEN iffD1, OF "3.prems"(1)] by blast
  obtain m where sy: "second = y" "get_next s y = Inr m" "chain s m ys"
    using chain_Cons[THEN iffD1, OF "3.prems"(2)] by blast
  have nn: "x \<noteq> NULL" "y \<noteq> NULL"
    using is_node_nonnull[OF get_next_is_node[OF fx(2)]]
      is_node_nonnull[OF get_next_is_node[OF sy(2)]] by simp_all
  have pdx: "loc_nodes ptr \<inter> set xs = {}" "loc_nodes ptr \<inter> set (x # xs) = {}"
    "loc_nodes ptr \<inter> set ys = {}" "loc_nodes ptr \<inter> set (y # ys) = {}"
    "x \<notin> loc_nodes ptr" "y \<notin> loc_nodes ptr"
    using "3.prems"(5) by (cases ptr; auto)+
  have ok: "elem_ok s x" "elem_ok s y" "elem_string s x = key x" "elem_string s y = key y"
    using "3.prems"(4) by auto
  have cmp: "cmp_entries s x y = Inr (strcmp_bytes (key x) (key y))"
    using cmp_entries_ok[OF ok(1,2)] ok(3,4) by simp
  have pk: "case ptr of NewHead \<Rightarrow> True | NextField a \<Rightarrow> is_node s a"
    using "3.prems"(5) by (cases ptr) auto
  have pd: "loc_nodes ptr \<inter> set ((x # xs) @ y # ys) = {}"
    using "3.prems"(5) by (cases ptr) auto
  show ?case
  proof (cases "strcmp_bytes (key x) (key y) < 0")
    case True
    from store_ok[OF pk, of x nh] obtain nh1 s1 where
      st: "store ptr x (nh, s) = Inr (nh1, s1)" and ld: "load ptr (nh1, s1) = Inr x"
      and nh: "ptr \<noteq> NewHead \<longrightarrow> nh1 = nh" and fr: "link_frame (loc_nodes ptr) s s1"
      and pv: "get_prev s1 = get_prev s"
      by blast
    have xn1: "get_next s1 x = Inr n"
      using link_frame_get(1)[OF fr pdx(5)] fx(2) by simp
    have body: "merge_body x y nh ptr s = Inr (n, y, nh1, NextField x, s1)"
      using cmp True st xn1 ld by (simp add: merge_body_def)
    have step: "merge_loop first second nh ptr s = merge_loop n y nh1 (NextField x) s1"
      using fx sy nn body by (subst merge_loop.simps) simp
    have el: "elem_ok s1 = elem_ok s" "elem_string s1 = elem_string s"
      using link_frame_elem[OF fr] by simp_all
    have "\<exists>nh' s' r. merge_loop n y nh1 (NextField x) s1 = Some (Inr (nh', s')) \<and>
           load (NextField x) (nh', s') = Inr r \<and> chain s' r (merge_list key xs (y # ys)) \<and>
           (NextField x \<noteq> NewHead \<longrightarrow> nh' = nh1) \<and>
           link_frame (set xs \<union> set (y # ys) \<union> loc_nodes (NextField x)) s1 s' \<and>
           get_prev s' = get_prev s1"
    proof (rule "3.IH"(1)[OF True])
      show "chain s1 n xs" by (rule chain_frame[OF fx(3) fr pdx(1)])
      show "chain s1 y (y # ys)"
        using chain_frame[OF "3.prems"(2) fr pdx(4)] sy(1) by simp
      show "distinct (xs @ y # ys)" using "3.prems"(3) by simp
      show "\<forall>z\<in>set (xs @ y # ys). elem_ok s1 z \<and> elem_string s1 z = key z"
        using "3.prems"(4) el by simp
      show "case NextField x of NewHead \<Rightarrow> True
            | NextField a \<Rightarrow> is_node s1 a \<and> a \<notin> set (xs @ y # ys)"
        using xn1 "3.prems"(3) by (auto intro: get_next_is_node)
    qed
    then obtain nh' s' r where
      run: "merge_loop n y nh1 (NextField x) s1 = Some (Inr (nh', s'))"
      and r: "get_next s' x = Inr r" "chain s' r (merge_list key xs (y # ys))"
      and nh': "nh' = nh1"
      and fr': "link_frame (set xs \<union> set (y # ys) \<union> {x}) s1 s'"
      and pv': "get_prev s' = get_prev s1"
      by (simp add: load_def) blast
    have di: "loc_nodes ptr \<inter> (set xs \<union> set (y # ys) \<union> {x}) = {}"
      using pdx by auto
    have l: "load ptr (nh', s') = Inr x"
      by (rule load_frame[OF ld fr' di]) (simp add: nh')
    have c: "chain s' x (merge_list key (x # xs) (y # ys))"
      using True r by simp
    have f: "link_frame (set (x # xs) \<union> set (y # ys) \<union> loc_nodes ptr) s s'"
      using link_frame_trans[OF fr fr'] by (rule link_frame_mono) auto
    have "merge_loop first second nh ptr s = Some (Inr (nh', s'))" using step run by simp
    moreover have "ptr \<noteq> NewHead \<longrightarrow> nh' = nh" using nh nh' by simp
    moreover have "get_prev s' = get_prev s" using pv pv' by simp
    ultimately show ?thesis using l c f by blast
  next
    case False
    from store_ok[OF pk, of y nh] obtain nh1 s1 where
      st: "store ptr y (nh, s) = Inr (nh1, s1)" and ld: "load ptr (nh1, s1) = Inr y"
      and nh: "ptr \<noteq> NewHead \<longrightarrow> nh1 = nh" and fr: "link_frame (loc_nodes ptr) s s1"
      and pv: "get_prev s1 = get_prev s"
      by blast
    have yn1: "get_next s1 y = Inr m"
      using link_frame_get(1)[OF fr pdx(6)] sy(2) by simp
    have body: "merge_body x y nh ptr s = Inr (x, m, nh1, NextField y, s1)"
      using cmp False st yn1 ld by (simp add: merge_body_def)
    have step: "merge_loop first second nh ptr s = merge_loop x m nh1 (NextField y) s1"
      using fx sy nn body by (subst merge_loop.simps) simp
    have el: "elem_ok s1 = elem_ok s" "elem_string s1 = elem_string s"
      using link_frame_elem[OF fr] by simp_all
    have "\<exists>nh' s' r. merge_loop x m nh1 (NextField y) s1 = Some (Inr (nh', s')) \<and>
           load (NextField y) (nh', s') = Inr r \<and> chain s' r (merge_list key (x # xs) ys) \<and>
           (NextField y \<noteq> NewHead \<longrightarrow> nh' = nh1) \<and>
           link_frame (set (x # xs) \<union> set ys \<union> loc_nodes (NextField y)) s1 s' \<and>
           get_prev s' = get_prev s1"
    proof (rule "3.IH"(2)[OF False])
      show "chain s1 x (x # xs)"
        using chain_frame[OF "3.prems"(1) fr pdx(2)] fx(1) by simp
      show "chain s1 m ys" by (rule chain_frame[OF sy(3) fr pdx(3)])
      show "distinct ((x # xs) @ ys)" using "3.prems"(3) by simp
      show "\<forall>z\<in>set ((x # xs) @ ys). elem_ok s1 z \<and> elem_string s1 z = key z"
        using "3.prems"(4) el by simp
      show "case NextField y of NewHead \<Rightarrow> True
            | NextField a \<Rightarrow> is_node s1 a \<and> a \<notin> set ((x # xs) @ ys)"
        using yn1 "3.prems"(3) by (auto intro: get_next_is_node)
    qed
    then obtain nh' s' r where
      run: "merge_loop x m nh1 (NextField y) s1 = Some (Inr (nh', s'))"
      and r: "get_next s' y = Inr r" "chain s' r (merge_list key (x # xs) ys)"
      and nh': "nh' = nh1"
      and fr': "link_frame (set (x # xs) \<union> set ys \<union> {y}) s1 s'"
      and pv': "get_prev s' = get_prev s1"
      by (simp add: load_def) blast
    have di: "loc_nodes ptr \<inter> (set (x # xs) \<union> set ys \<union> {y}) = {}"
      using pdx by auto
    have l: "load ptr (nh', s') = Inr y"
      by (rule load_frame[OF ld fr' di]) (simp add: nh')
    have c: "chain s' y (merge_list key (x # xs) (y # ys))"
      using False r by simp
    have f: "link_frame (set (x # xs) \<union> set (y # ys) \<union> loc_nodes ptr) s s'"
      using link_frame_trans[OF fr fr'] by (rule link_frame_mono) auto
    have "merge_loop first second nh ptr s = Some (Inr (nh', s'))" using step run by simp
    moreover have "ptr \<noteq> NewHead \<longrightarrow> nh' = nh" using nh nh' by simp
    moreover have "get_prev s' = get_prev s" using pv pv' by simp
    ultimately show ?thesis using l c f by blast
  qed
qed

section \<open>Splitting and sorting a chain\<close>

lemma chain_nonnull: "chain s p xs \<Longrightarrow> x \<in> set xs \<Longrightarrow> x \<noteq> NULL"
  by (blast dest: chain_is_node is_node_nonnull)

lemma chain_nth:
  "chain s p xs \<Longrightarrow> j < length xs \<Longrightarrow> get_next s (xs ! j) = Inr ((xs @ [NULL]) ! Suc j)"
proof (induction xs arbitrary: p j)
  case Nil
  then show ?case by simp
next
  case (Cons x xs)
  obtain n where n: "p = x" "get_next s x = Inr n" "chain s n xs"
    using chain_Cons[THEN iffD1, OF Cons.prems(1)] by blast
  show ?case
  proof (cases j)
    case 0
    have "n = (xs @ [NULL]) ! 0" using n(3) by (cases xs) auto
    then show ?thesis using 0 n(2) by simp
  next
    case (Suc i)
    then show ?thesis using Cons.IH[OF n(3), of i] Cons.prems(2) by simp
  qed
qed

lemma merge_sort_loop_correct:
  assumes c: "chain s p xs" and i: "2 * i + 1 \<le> length xs"
  shows "merge_sort_loop ((xs @ [NULL]) ! i) ((xs @ [NULL]) ! (2 * i + 1)) s =
           Some (Inr ((xs @ [NULL]) ! ((length xs - 1) div 2)))"
  using i
proof (induction "length xs - 2 * i" arbitrary: i rule: less_induct)
  case less
  define L where "L = xs @ [NULL]"
  have nxt: "get_next s (L ! j) = Inr (L ! Suc j)" if "j < length xs" for j
    using chain_nth[OF c that] that by (simp add: L_def nth_append)
  have nn: "L ! j \<noteq> NULL" if "j < length xs" for j
    using chain_nonnull[OF c, of "xs ! j"] that by (simp add: L_def nth_append)
  have last: "L ! length xs = NULL" by (simp add: L_def)
  show ?case
  proof (cases "2 * i + 1 = length xs")
    case True
    then have "L ! (2 * i + 1) = NULL" using last by simp
    moreover have "(length xs - 1) div 2 = i" using True by presburger
    ultimately show ?thesis
      unfolding L_def[symmetric] by (subst merge_sort_loop.simps) simp
  next
    case False
    then have lt: "2 * i + 1 < length xs" using less.prems by simp
    have ne: "L ! (2 * i + 1) \<noteq> NULL" using nn[OF lt] .
    have sn: "get_next s (L ! (2 * i + 1)) = Inr (L ! (2 * i + 2))" using nxt[OF lt] by simp
    show ?thesis
    proof (cases "2 * i + 2 = length xs")
      case True
      then have "L ! (2 * i + 2) = NULL" using last by simp
      moreover have "(length xs - 1) div 2 = i" using True by presburger
      ultimately show ?thesis
        unfolding L_def[symmetric] using ne sn by (subst merge_sort_loop.simps) simp
    next
      case F2: False
      then have lt2: "2 * i + 2 < length xs" using lt by simp
      have ne2: "L ! (2 * i + 2) \<noteq> NULL" using nn[OF lt2] .
      have f': "get_next s (L ! i) = Inr (L ! Suc i)" using nxt[of i] lt by simp
      have s': "get_next s (L ! (2 * i + 2)) = Inr (L ! (2 * Suc i + 1))"
        using nxt[OF lt2] by simp
      have "merge_sort_loop (L ! i) (L ! (2 * i + 1)) s =
            merge_sort_loop (L ! Suc i) (L ! (2 * Suc i + 1)) s"
        using ne sn ne2 f' s' by (subst merge_sort_loop.simps) simp
      also have "\<dots> = Some (Inr (L ! ((length xs - 1) div 2)))"
        unfolding L_def using lt2 by (intro less.hyps) auto
      finally show ?thesis unfolding L_def .
    qed
  qed
qed

lemma chain_split:
  "chain s p (A @ x # B) \<Longrightarrow> x \<notin> set A \<Longrightarrow>
   chain (put_next x NULL s) p (A @ [x]) \<and> (\<exists>m. get_next s x = Inr m \<and> chain s m B)"
proof (induction A arbitrary: p)
  case Nil
  have "chain s p (x # B)" using Nil.prems(1) by simp
  then obtain m where m: "p = x" "get_next s x = Inr m" "chain s m B"
    using chain_Cons[THEN iffD1] by blast
  have "is_node s x" using m(2) by (rule get_next_is_node)
  then show ?case using m by (simp add: get_next_put_next)
next
  case (Cons a A)
  have "chain s p (a # (A @ x # B))" using Cons.prems(1) by simp
  then obtain n where n: "p = a" "get_next s a = Inr n" "chain s n (A @ x # B)"
    using chain_Cons[THEN iffD1] by blast
  have "a \<noteq> x" "x \<notin> set A" using Cons.prems(2) by auto
  then show ?case using Cons.IH[OF n(3)] n(1,2) by (simp add: get_next_put_next_other)
qed

lemma merge_correct:
  assumes "chain s first xs" "chain s second ys" "distinct (xs @ ys)"
    and "\<forall>x\<in>set (xs @ ys). elem_ok s x \<and> elem_string s x = key x"
  shows "\<exists>r s'. merge first second s = Some (Inr (r, s')) \<and>
           chain s' r (merge_list key xs ys) \<and>
           link_frame (set xs \<union> set ys) s s' \<and> get_prev s' = get_prev s"
proof -
  have pk: "case NewHead of NewHead \<Rightarrow> True | NextField a \<Rightarrow> is_node s a \<and> a \<notin> set (xs @ ys)"
    by simp
  from merge_loop_correct[OF assms pk, of NULL] obtain nh' s' r where
    "merge_loop first second NULL NewHead s = Some (Inr (nh', s'))"
    "load NewHead (nh', s') = Inr r" "chain s' r (merge_list key xs ys)"
    "link_frame (set xs \<union> set ys \<union> loc_nodes NewHead) s s'" "get_prev s' = get_prev s"
    by blast
  then show ?thesis by (auto simp: merge_def load_def)
qed

lemma merge_sort_correct:
  assumes "chain s head xs" "distinct xs"
    and "\<forall>x\<in>set xs. elem_ok s x \<and> elem_string s x = key x"
  shows "\<exists>r s'. merge_sort head s = Some (Inr (r, s')) \<and>
           chain s' r (msort_list key xs) \<and>
           link_frame (set xs) s s' \<and> get_prev s' = get_prev s"
  using assms
proof (induction key xs arbitrary: head s rule: msort_list.induct)
  case (1 key xs)
  show ?case
  proof (cases "length xs \<le> 1")
    case True
    then have eq: "msort_list key xs = xs" by (subst msort_list.simps) simp
    have "merge_sort head s = Some (Inr (head, s))"
    proof (cases xs)
      case Nil
      then have "head = NULL" using "1.prems"(1) by simp
      then show ?thesis by (subst merge_sort.simps) simp
    next
      case (Cons x ys)
      then have ys: "ys = []" using True by simp
      have "chain s head [x]" using "1.prems"(1) Cons ys by simp
      then have "head \<noteq> NULL" "get_next s head = Inr NULL"
        by (auto split: sum.splits dest!: get_next_is_node is_node_nonnull)
      then show ?thesis by (subst merge_sort.simps) simp
    qed
    then show ?thesis using "1.prems"(1) eq by (auto simp: link_frame_refl)
  next
    case False
    define n where "n = length xs"
    define k where "k = (n + 1) div 2"
    define L where "L = xs @ [NULL]"
    define first where "first = xs ! (k - 1)"
    have n2: "2 \<le> n" using False by (simp add: n_def)
    have k: "0 < k" "k < n" "k - 1 = (n - 1) div 2" "Suc (k - 1) = k"
      using n2 unfolding k_def by presburger+
    have eq: "msort_list key xs =
        merge_list key (msort_list key (take k xs)) (msort_list key (drop k xs))"
      using False unfolding k_def n_def by (subst msort_list.simps) simp
    have h0: "head = L ! 0" "head \<noteq> NULL"
      using "1.prems"(1) n2
      by (cases xs; auto simp: L_def n_def split: sum.splits dest!: get_next_is_node is_node_nonnull)+
    have hn: "get_next s head = Inr (L ! 1)"
      using chain_nth[OF "1.prems"(1), of 0] n2 h0(1) by (auto simp: L_def n_def nth_append)
    have l1: "L ! 1 \<noteq> NULL"
      using chain_nonnull[OF "1.prems"(1), of "xs ! 1"] n2 by (simp add: L_def n_def nth_append)
    have loop: "merge_sort_loop head (L ! 1) s = Some (Inr first)"
      using merge_sort_loop_correct[OF "1.prems"(1), of 0] n2 h0(1) k
      by (simp add: L_def n_def first_def nth_append)
    have split: "xs = take (k - 1) xs @ first # drop k xs"
      using id_take_nth_drop[of "k - 1" xs] k by (simp add: first_def n_def)
    have tk: "take k xs = take (k - 1) xs @ [first]"
      using take_Suc_conv_app_nth[of "k - 1" xs] k by (simp add: first_def n_def)
    have dsp: "distinct (take (k - 1) xs @ first # drop k xs)"
      using "1.prems"(2) split by simp
    have fn: "first \<notin> set (take (k - 1) xs)" "first \<notin> set (drop k xs)"
      using dsp by auto
    have td: "set (take k xs) \<inter> set (drop k xs) = {}" "distinct (take k xs)"
      "distinct (drop k xs)" "set (take k xs) \<union> set (drop k xs) = set xs"
    proof -
      show "set (take k xs) \<inter> set (drop k xs) = {}"
        using "1.prems"(2) by (intro set_take_disj_set_drop_if_distinct) simp_all
      show "distinct (take k xs)" "distinct (drop k xs)"
        using "1.prems"(2) by simp_all
      have "set (take k xs @ drop k xs) = set xs" by (simp only: append_take_drop_id)
      then show "set (take k xs) \<union> set (drop k xs) = set xs" by (simp only: set_append)
    qed
    have ch: "chain s head (take (k - 1) xs @ first # drop k xs)"
      using "1.prems"(1) split by simp
    from chain_split[OF ch fn(1)] obtain middle where
      c1: "chain (put_next first NULL s) head (take k xs)"
      and md: "get_next s first = Inr middle" "chain s middle (drop k xs)"
      unfolding tk by blast
    define s1 where "s1 = put_next first NULL s"
    have nf: "is_node s first" using md(1) by (rule get_next_is_node)
    have sp: "merge_sort_split first s = Inr (middle, s1)"
      using md(1) nf by (simp add: merge_sort_split_def s1_def set_next_put)
    have f1: "link_frame {first} s s1" unfolding s1_def by (rule link_frame_put_next)
    have c2: "chain s1 middle (drop k xs)"
      by (rule chain_frame[OF md(2) f1]) (use fn in simp)
    have el1: "elem_ok s1 = elem_ok s" "elem_string s1 = elem_string s"
      using link_frame_elem[OF f1] by simp_all
    have "\<exists>r s'. merge_sort head s1 = Some (Inr (r, s')) \<and>
           chain s' r (msort_list key (take k xs)) \<and>
           link_frame (set (take k xs)) s1 s' \<and> get_prev s' = get_prev s1"
      unfolding k_def n_def
    proof (rule "1.IH"(1)[OF False])
      show "chain s1 head (take ((length xs + 1) div 2) xs)"
        using c1 by (simp add: s1_def k_def n_def)
      show "distinct (take ((length xs + 1) div 2) xs)" using "1.prems"(2) by simp
      show "\<forall>x\<in>set (take ((length xs + 1) div 2) xs). elem_ok s1 x \<and> elem_string s1 x = key x"
        using "1.prems"(3) el1 by (auto dest: in_set_takeD)
    qed
    then obtain a s2 where
      m1: "merge_sort head s1 = Some (Inr (a, s2))"
      and ca: "chain s2 a (msort_list key (take k xs))"
      and f2: "link_frame (set (take k xs)) s1 s2" and p2: "get_prev s2 = get_prev s1"
      by blast
    have c2': "chain s2 middle (drop k xs)"
      by (rule chain_frame[OF c2 f2 td(1)])
    have el2: "elem_ok s2 = elem_ok s" "elem_string s2 = elem_string s"
      using link_frame_elem[OF f2] el1 by simp_all
    have "\<exists>r s'. merge_sort middle s2 = Some (Inr (r, s')) \<and>
           chain s' r (msort_list key (drop k xs)) \<and>
           link_frame (set (drop k xs)) s2 s' \<and> get_prev s' = get_prev s2"
      unfolding k_def n_def
    proof (rule "1.IH"(2)[OF False])
      show "chain s2 middle (drop ((length xs + 1) div 2) xs)"
        using c2' by (simp add: k_def n_def)
      show "distinct (drop ((length xs + 1) div 2) xs)" using "1.prems"(2) by simp
      show "\<forall>x\<in>set (drop ((length xs + 1) div 2) xs). elem_ok s2 x \<and> elem_string s2 x = key x"
        using "1.prems"(3) el2 by (auto dest: in_set_dropD)
    qed
    then obtain b s3 where
      m2: "merge_sort middle s2 = Some (Inr (b, s3))"
      and cb: "chain s3 b (msort_list key (drop k xs))"
      and f3: "link_frame (set (drop k xs)) s2 s3" and p3: "get_prev s3 = get_prev s2"
      by blast
    have ca': "chain s3 a (msort_list key (take k xs))"
      by (rule chain_frame[OF ca f3]) (use td(1) in \<open>auto simp: set_msort_list\<close>)
    have el3: "elem_ok s3 = elem_ok s" "elem_string s3 = elem_string s"
      using link_frame_elem[OF f3] el2 by simp_all
    have dm: "distinct (msort_list key (take k xs) @ msort_list key (drop k xs))"
      using td by (simp add: distinct_msort_list set_msort_list)
    have em: "\<forall>x\<in>set (msort_list key (take k xs) @ msort_list key (drop k xs)).
                elem_ok s3 x \<and> elem_string s3 x = key x"
      using "1.prems"(3) el3 td(4) by (auto simp: set_msort_list)
    from merge_correct[OF ca' cb dm em] obtain r s' where
      mg: "merge a b s3 = Some (Inr (r, s'))"
      and cr: "chain s' r (merge_list key (msort_list key (take k xs))
                                          (msort_list key (drop k xs)))"
      and f4: "link_frame (set (msort_list key (take k xs)) \<union>
                           set (msort_list key (drop k xs))) s3 s'"
      and p4: "get_prev s' = get_prev s3"
      by blast
    have run: "merge_sort head s = Some (Inr (r, s'))"
      using h0(2) hn l1 loop sp m1 m2 mg by (subst merge_sort.simps) simp
    have fin: "first \<in> set xs" using split by (metis in_set_conv_decomp)
    have "link_frame ({first} \<union> set (take k xs) \<union> set (drop k xs) \<union>
            (set (msort_list key (take k xs)) \<union> set (msort_list key (drop k xs)))) s s'"
      by (intro link_frame_trans[OF _ f4] link_frame_trans[OF _ f3]
          link_frame_trans[OF f1 f2])
    then have fr: "link_frame (set xs) s s'"
      by (rule link_frame_mono) (use td(4) fin in \<open>auto simp: set_msort_list\<close>)
    have "get_prev s' = get_prev s"
      using p4 p3 p2 by (simp add: s1_def fun_eq_iff)
    then show ?thesis using run cr fr unfolding eq by blast
  qed
qed

section \<open>Sorting a queue\<close>

lemma link_frame_head:
  assumes "link_frame S s s'" "p \<notin> S"
  shows "is_list_head s' p = is_list_head s p"
proof -
  have "heap s' p = heap s p" using assms by (simp add: link_frame_def)
  then show ?thesis by (rule heap_eq_get)
qed

lemma link_frame_dom:
  assumes "link_frame S s s'"
  shows "dom (heap s') = dom (heap s)" "alloc s' = alloc s"
  using assms by (simp_all add: link_frame_def)

text \<open>The pass of \<open>q_sort\<close> that restores the backward pointers.\<close>

lemma q_sort_loop_correct:
  assumes "chain s p ys" "distinct (first # ys)" "get_next s first = Inr p"
  shows "\<exists>s'. q_sort_loop first p s = Some (Inr (last (first # ys), s')) \<and>
           successively (link s') (first # ys) \<and> get_next s' = get_next s \<and>
           link_frame (set ys) s s'"
  using assms
proof (induction ys arbitrary: first p s)
  case Nil
  then have "p = NULL" by simp
  then show ?case by (subst q_sort_loop.simps) (simp add: link_frame_refl)
next
  case (Cons y ys)
  have "chain s p (y # ys)" using Cons.prems(1) .
  then obtain n where n: "p = y" "get_next s y = Inr n" "chain s n ys"
    using chain_Cons[THEN iffD1] by blast
  have ny: "is_node s y" using n(2) by (rule get_next_is_node)
  have y0: "y \<noteq> NULL" using ny by (rule is_node_nonnull)
  define s1 where "s1 = put_prev y first s"
  have g1: "get_next s1 = get_next s" unfolding s1_def by (rule ext) simp
  have f1: "link_frame {y} s s1" unfolding s1_def by (rule link_frame_put_prev)
  have step: "q_sort_loop first p s = q_sort_loop y n s1"
    using n(1,2) y0 ny Cons.prems(3) g1
    by (subst q_sort_loop.simps) (simp add: set_prev_put s1_def)
  have c1: "chain s1 n ys" by (rule chain_cong[OF n(3)]) (simp add: g1)
  have d1: "distinct (y # ys)" using Cons.prems(2) by simp
  have n1: "get_next s1 y = Inr n" using n(2) g1 by simp
  from Cons.IH[OF c1 d1 n1] obtain s' where
    run: "q_sort_loop y n s1 = Some (Inr (last (y # ys), s'))"
    and sc: "successively (link s') (y # ys)"
    and g': "get_next s' = get_next s1" and f': "link_frame (set ys) s1 s'"
    by blast
  have yn: "y \<notin> set ys" using d1 by simp
  have "get_prev s' y = get_prev s1 y" using f' yn by (rule link_frame_get)
  then have "get_prev s' y = Inr first" using ny by (simp add: s1_def get_prev_put_prev)
  moreover have "get_next s' first = Inr y" using g' g1 Cons.prems(3) n(1) by simp
  ultimately have "successively (link s') (first # y # ys)"
    using sc by (simp add: link_def)
  moreover have "link_frame (set (y # ys)) s s'"
    using link_frame_trans[OF f1 f'] by (rule link_frame_mono) auto
  moreover have "get_next s' = get_next s" using g' g1 by simp
  ultimately show ?case using step run by simp
qed

text \<open>Cutting the circle behind the last element leaves a chain.\<close>

lemma cut_chain:
  assumes "successively (\<lambda>a b. get_next s a = Inr b) (xs @ [z])" "distinct xs" "xs \<noteq> []"
  shows "chain (put_next (last xs) NULL s) (hd xs) xs"
  using assms
proof (induction xs rule: induct_list012)
  case 1
  then show ?case by simp
next
  case (2 x)
  then have "is_node s x" by (auto intro: get_next_is_node)
  then show ?case by (simp add: get_next_put_next)
next
  case (3 x y zs)
  have xy: "get_next s x = Inr y" using "3.prems"(1) by simp
  have ne: "x \<noteq> last (y # zs)" using "3.prems"(2) by (metis distinct.simps(2) last_in_set list.discI)
  have "chain (put_next (last (y # zs)) NULL s) (hd (y # zs)) (y # zs)"
    using "3.prems" by (intro "3.IH"(2)) auto
  then show ?case using xy ne by (simp add: get_next_put_next_other)
qed

lemma q_sort_small:
  assumes q: "queue s head xs" and le: "length xs \<le> 1"
  shows "q_sort head s = Some (Inr s)"
proof -
  have h: "head \<noteq> NULL" using q by (simp add: queue_def is_list_head_def)
  show ?thesis
  proof (cases xs)
    case Nil
    then have "get_next s head = Inr head" using queue_next_head[OF q] by simp
    then show ?thesis using h by (simp add: q_sort_def list_empty_def)
  next
    case (Cons x ys)
    then have xs: "xs = [x]" using le by simp
    have "get_next s head = Inr x" "get_prev s head = Inr x" "x \<noteq> head"
      using queue_next_head[OF q] queue_prev_head[OF q] q xs by (simp_all add: queue_def)
    then show ?thesis using h
      by (simp add: q_sort_def list_empty_def list_is_singular_def)
  qed
qed

lemma q_sort_queue:
  assumes q: "queue s head xs"
  shows "\<exists>s'. q_sort head s = Some (Inr s') \<and>
           queue s' head (msort_list (elem_string s) xs) \<and>
           elem_string s' = elem_string s \<and> value_ptr s' = value_ptr s \<and>
           dom (heap s') = dom (heap s) \<and> alloc s' = alloc s"
proof (cases "length xs \<le> 1")
  case True
  then have "msort_list (elem_string s) xs = xs" by (subst msort_list.simps) simp
  then show ?thesis using q_sort_small[OF q True] q by simp
next
  case False
  define key where "key = elem_string s"
  define ys where "ys = msort_list key xs"
  define lx where "lx = last xs"
  define ly where "ly = last ys"
  have ne: "xs \<noteq> []" using False by auto
  have h: "head \<noteq> NULL" "is_list_head s head" "is_node s head"
    using q queue_is_node[OF q, of head] by (simp_all add: queue_def is_list_head_def)
  have d: "distinct xs" "head \<notin> set xs" using q by (simp_all add: queue_def)
  have hn: "get_next s head = Inr (hd xs)" using queue_next_head[OF q] ne by simp
  have hp: "get_prev s head = Inr lx" using queue_prev_head[OF q] ne by (simp add: lx_def)
  have hx: "hd xs \<noteq> head" "lx \<noteq> head" using d ne by (auto simp: lx_def)
  have hl: "lx \<noteq> hd xs"
  proof -
    obtain a b zs where "xs = a # b # zs"
      using False by (cases xs; cases "tl xs") auto
    then show ?thesis using d(1) unfolding lx_def
      by (metis distinct.simps(2) last_ConsR last_in_set list.discI list.sel(1))
  qed
  have nl: "is_node s lx" using queue_is_node[OF q, of lx] ne by (simp add: lx_def)
  define s1 where "s1 = put_next lx NULL s"
  have cut: "q_sort_cut head s = Inr (hd xs, s1)"
    using hp nl hn hx by (simp add: q_sort_cut_def s1_def set_next_put get_next_put_next)
  have fw: "successively (\<lambda>a b. get_next s a = Inr b) (xs @ [head])"
    using queue_forward[OF q] by (cases xs) (simp_all add: successively_Cons)
  have c1: "chain s1 (hd xs) xs"
    unfolding s1_def lx_def using fw d(1) ne by (rule cut_chain)
  have f1: "link_frame {lx} s s1" unfolding s1_def by (rule link_frame_put_next)
  have el1: "elem_ok s1 = elem_ok s" "elem_string s1 = elem_string s"
    using link_frame_elem[OF f1] by simp_all
  have ok1: "\<forall>x\<in>set xs. elem_ok s1 x \<and> elem_string s1 x = key x"
    using q el1 by (simp add: queue_def list_all_iff key_def)
  from merge_sort_correct[OF c1 d(1) ok1] obtain r s2 where
    ms: "merge_sort (hd xs) s1 = Some (Inr (r, s2))" and c2: "chain s2 r ys"
    and f2: "link_frame (set xs) s1 s2" and p2: "get_prev s2 = get_prev s1"
    unfolding ys_def by blast
  have sy: "set ys = set xs" "distinct ys" "mset ys = mset xs"
    using d(1) by (simp_all add: ys_def set_msort_list distinct_msort_list mset_msort_list)
  have yne: "ys \<noteq> []" using sy(1) ne by auto
  have n2: "is_node s2 head" using h(3) link_frame_is_node[OF f2] by (simp add: s1_def)
  define s3 where "s3 = put_next head r s2"
  have sn: "set_next head r s2 = Inr s3" unfolding s3_def using n2 by (rule set_next_put)
  have f3: "link_frame {head} s2 s3" unfolding s3_def by (rule link_frame_put_next)
  have g3: "get_next s3 head = Inr r" using n2 by (simp add: s3_def get_next_put_next)
  have c3: "chain s3 r ys" by (rule chain_frame[OF c2 f3]) (use d(2) sy(1) in simp)
  have d3: "distinct (head # ys)" using d(2) sy by simp
  from q_sort_loop_correct[OF c3 d3 g3] obtain s4 where
    lp: "q_sort_loop head r s3 = Some (Inr (last (head # ys), s4))"
    and sc: "successively (link s4) (head # ys)"
    and g4: "get_next s4 = get_next s3" and f4: "link_frame (set ys) s3 s4"
    by blast
  have lst: "last (head # ys) = ly" using yne by (simp add: ly_def)
  have lin: "ly \<in> set ys" using yne by (simp add: ly_def)
  have lh: "ly \<noteq> head" using lin d3 by auto
  have n4: "is_node s4 ly" "is_node s4 head"
    using chain_is_node[OF c3 lin] n2 link_frame_is_node[OF f4] link_frame_is_node[OF f3]
    by simp_all
  define s' where "s' = put_prev head ly (put_next ly head s4)"
  have cl: "q_sort_close head ly s4 = Inr s'"
    using n4 by (simp add: q_sort_close_def s'_def set_next_put set_prev_put)
  have run: "q_sort head s = Some (Inr s')"
    using h(1) hn hp hx hl cut ms sn g3 lp lst cl
    by (simp add: q_sort_def list_empty_def list_is_singular_def)
  have f5: "link_frame {ly, head} s4 s'"
    unfolding s'_def
    using link_frame_trans[OF link_frame_put_next[where p = ly and x = head and s = s4]
        link_frame_put_prev[where p = head and x = ly and s = "put_next ly head s4"]]
    by (rule link_frame_mono) auto
  have frame: "link_frame (insert head (set xs)) s s'"
    using link_frame_trans[OF link_frame_trans[OF link_frame_trans[OF
            link_frame_trans[OF f1 f2] f3] f4] f5]
    by (rule link_frame_mono) (use sy(1) lin ne in \<open>auto simp: lx_def\<close>)
  have "successively (link s') (head # ys) = successively (link s4) (head # ys)"
  proof (rule successively_link_cong)
    show "\<forall>a\<in>set (butlast (head # ys)). get_next s' a = get_next s4 a"
    proof
      fix a assume a: "a \<in> set (butlast (head # ys))"
      have "butlast (head # ys) @ [ly] = head # ys"
        using yne lst by (metis append_butlast_last_id list.discI)
      then have "distinct (butlast (head # ys) @ [ly])" using d3 by simp
      then have "a \<noteq> ly" using a by auto
      then show "get_next s' a = get_next s4 a"
        by (simp add: s'_def get_next_put_next_other)
    qed
    show "\<forall>b\<in>set (tl (head # ys)). get_prev s' b = get_prev s4 b"
    proof
      fix b assume "b \<in> set (tl (head # ys))"
      then have "b \<noteq> head" using d3 by auto
      then show "get_prev s' b = get_prev s4 b"
        by (simp add: s'_def get_prev_put_prev_other)
    qed
  qed
  moreover have "link s' ly head"
    using n4 lh by (simp add: link_def s'_def get_next_put_next get_prev_put_prev
        get_next_put_next_other)
  ultimately have cyc: "successively (link s') (head # ys @ [head])"
    using sc yne successively_append_iff[of "link s'" "head # ys" "[head]"]
    by (simp add: ly_def)
  have el: "elem_ok s' = elem_ok s" "elem_string s' = elem_string s" "value_ptr s' = value_ptr s"
    using link_frame_elem[OF frame] by simp_all
  have hh: "is_list_head s' head"
  proof -
    have "is_list_head s2 head"
      using link_frame_head[OF f2 d(2)] h(2) by (simp add: s1_def)
    then have "is_list_head s4 head"
      using link_frame_head[OF f4, of head] d3 sy(1) by (simp add: s3_def)
    then show ?thesis by (simp add: s'_def)
  qed
  have ok: "list_all (elem_ok s') ys"
    using q sy(1) el by (simp add: queue_def list_all_iff)
  have "mset (map (value_ptr s) ys) = mset (map (value_ptr s) xs)"
    using sy(3) by (metis mset_map)
  then have dv: "distinct (map (value_ptr s') ys)"
    using q el(3) by (metis mset_eq_imp_distinct_iff queue_def)
  have "queue s' head ys"
    using hh d3 cyc ok dv by (simp add: queue_def)
  then show ?thesis
    using run el link_frame_dom[OF frame] unfolding ys_def key_def by blast
qed

section \<open>\<open>strcmp\<close> and the lexicographic order\<close>

lemma strcmp_bytes_less_iff: "strcmp_bytes a b < 0 \<longleftrightarrow> a < b"
proof (induction a b rule: strcmp_bytes.induct)
  case (4 c cs d ds)
  have "int (of_char c) - int (of_char d) < 0 \<longleftrightarrow> c < d"
    by (simp add: less_char_def)
  then show ?case using 4 by auto
qed simp_all

lemma str_le_iff: "str_le a b \<longleftrightarrow> a \<le> b"
proof -
  have "str_le a b \<longleftrightarrow> \<not> strcmp_bytes b a < 0"
    using str_le_total[of b a] strcmp_bytes_flip[of b a] by (auto simp: str_le_def)
  then show ?thesis by (simp add: strcmp_bytes_less_iff not_less)
qed

lemma sorted_msort_strings: "sorted (map key (msort_list key xs))"
  using sorted_msort_list[of key xs] by (simp add: sorted_wrt_map str_le_iff[abs_def])

section \<open>Claims about sorting\<close>

lemma unsorted_queue_ok: "queue unsorted_queue 1 [2, 3, 4]"
  by (simp add: queue_def unsorted_queue_def is_list_head_def link_def get_next_def get_prev_def
      elem_ok_def get_value_def get_chars_def value_ptr_def)

lemma unsorted_queue_strings:
  "elem_string unsorted_queue 2 = ''c''" "elem_string unsorted_queue 3 = ''a''"
  "elem_string unsorted_queue 4 = ''b''"
  by (simp_all add: unsorted_queue_def elem_string_def get_value_def get_chars_def value_ptr_def
      cstr_def NUL_def)

lemma unsorted_queue_order: "msort_list (elem_string unsorted_queue) [2, 3, 4] = [3, 4, 2]"
  by (simp add: msort_list.simps unsorted_queue_strings)

lemma fresh_queue_ok: "queue fresh_queue 1 []"
  by (simp add: queue_def fresh_queue_def is_list_head_def link_def get_next_def get_prev_def)

text \<open>
  C5. On a well-formed queue \<open>q_sort\<close> returns and leaves a well-formed queue in which
  every adjacent pair, in forward order, has \<open>strcmp\<close> not positive, that is, the
  strings ascend in the lexicographic order of their bytes. On an absent queue, an
  empty queue and a queue of one element it returns at once and changes nothing.
\<close>

theorem q_sort_sorted:
  assumes "queue s head xs"
  shows "q_sort NULL s = Some (Inr s) \<and>
         (length xs \<le> 1 \<longrightarrow> q_sort head s = Some (Inr s)) \<and>
         (\<exists>s' ys. q_sort head s = Some (Inr s') \<and> queue s' head ys \<and>
            successively
              (\<lambda>a b. strcmp_bytes (elem_string s' a) (elem_string s' b) \<le> 0 \<and>
                     elem_string s' a \<le> elem_string s' b) ys \<and>
            sorted (map (elem_string s') ys))"
proof -
  from q_sort_queue[OF assms] obtain s' where
    run: "q_sort head s = Some (Inr s')"
    and q': "queue s' head (msort_list (elem_string s) xs)"
    and es: "elem_string s' = elem_string s"
    by blast
  define ys where "ys = msort_list (elem_string s) xs"
  have so: "sorted (map (elem_string s') ys)"
    unfolding ys_def es by (rule sorted_msort_strings)
  then have "sorted_wrt (\<lambda>a b. elem_string s' a \<le> elem_string s' b) ys"
    by (simp add: sorted_wrt_map)
  then have "sorted_wrt (\<lambda>a b. strcmp_bytes (elem_string s' a) (elem_string s' b) \<le> 0 \<and>
                     elem_string s' a \<le> elem_string s' b) ys"
    using str_le_iff by (simp add: str_le_def)
  then have "successively (\<lambda>a b. strcmp_bytes (elem_string s' a) (elem_string s' b) \<le> 0 \<and>
                     elem_string s' a \<le> elem_string s' b) ys"
    by (rule successively_if_sorted_wrt)
  moreover have "q_sort NULL s = Some (Inr s)" by (simp add: q_sort_def)
  moreover have "length xs \<le> 1 \<longrightarrow> q_sort head s = Some (Inr s)"
    using q_sort_small[OF assms] by blast
  ultimately show ?thesis using run q' so unfolding ys_def by blast
qed

theorem q_sort_sorted_witness:
  "queue unsorted_queue 1 [2, 3, 4] \<and>
   map (elem_string unsorted_queue) [2, 3, 4] = [''c'', ''a'', ''b''] \<and>
   (\<exists>s'. q_sort 1 unsorted_queue = Some (Inr s') \<and> queue s' 1 [3, 4, 2] \<and>
      map (elem_string s') [3, 4, 2] = [''a'', ''b'', ''c''] \<and>
      (\<exists>ys. queue s' 1 ys \<and> sorted (map (elem_string s') ys))) \<and>
   queue fresh_queue 1 [] \<and> q_sort 1 fresh_queue = Some (Inr fresh_queue)"
proof -
  from q_sort_queue[OF unsorted_queue_ok] obtain s' where
    run: "q_sort 1 unsorted_queue = Some (Inr s')" and q': "queue s' 1 [3, 4, 2]"
    and es: "elem_string s' = elem_string unsorted_queue"
    unfolding unsorted_queue_order by blast
  from q_sort_sorted[OF unsorted_queue_ok] obtain t ys where
    "q_sort 1 unsorted_queue = Some (Inr t)" "queue t 1 ys" "sorted (map (elem_string t) ys)"
    by blast
  then have "\<exists>ys. queue s' 1 ys \<and> sorted (map (elem_string s') ys)"
    using run by auto
  moreover have "q_sort 1 fresh_queue = Some (Inr fresh_queue)"
    using q_sort_sorted[OF fresh_queue_ok] by simp
  ultimately show ?thesis
    using run q' es unsorted_queue_ok fresh_queue_ok
    by (simp add: unsorted_queue_strings)
qed

text \<open>
  C10. On a well-formed queue \<open>q_sort\<close> returns and leaves a well-formed queue that
  holds the same elements, each once: nothing is allocated or freed and no string or
  \<open>value\<close> field changes. The circle is closed again: along the forward chain from the
  sentinel through the elements back to the sentinel, each node's backward pointer is
  its forward predecessor.
\<close>

theorem q_sort_preserves_elements:
  assumes "queue s head xs"
  shows "\<exists>s' ys. q_sort head s = Some (Inr s') \<and> mset ys = mset xs \<and> queue s' head ys \<and>
           successively (\<lambda>a b. get_next s' a = Inr b \<and> get_prev s' b = Inr a)
             (head # ys @ [head]) \<and>
           dom (heap s') = dom (heap s) \<and> alloc s' = alloc s \<and>
           elem_string s' = elem_string s \<and> value_ptr s' = value_ptr s"
proof -
  from q_sort_queue[OF assms] obtain s' where
    run: "q_sort head s = Some (Inr s')"
    and q': "queue s' head (msort_list (elem_string s) xs)"
    and fr: "elem_string s' = elem_string s" "value_ptr s' = value_ptr s"
      "dom (heap s') = dom (heap s)" "alloc s' = alloc s"
    by blast
  have "successively (link s') (head # msort_list (elem_string s) xs @ [head])"
    using q' by (simp add: queue_def)
  then have "successively (\<lambda>a b. get_next s' a = Inr b \<and> get_prev s' b = Inr a)
               (head # msort_list (elem_string s) xs @ [head])"
    by (rule successively_mono) (simp add: link_def)
  then show ?thesis using run q' fr mset_msort_list[of "elem_string s" xs] by blast
qed

theorem q_sort_preserves_elements_witness:
  "queue unsorted_queue 1 [2, 3, 4] \<and>
   (\<exists>s' ys. q_sort 1 unsorted_queue = Some (Inr s') \<and> mset ys = mset [2, 3, 4] \<and>
      queue s' 1 ys \<and>
      successively (\<lambda>a b. get_next s' a = Inr b \<and> get_prev s' b = Inr a) (1 # ys @ [1]) \<and>
      dom (heap s') = dom (heap unsorted_queue) \<and> alloc s' = alloc unsorted_queue \<and>
      elem_string s' = elem_string unsorted_queue \<and> value_ptr s' = value_ptr unsorted_queue)"
  by (rule conjI[OF unsorted_queue_ok q_sort_preserves_elements[OF unsorted_queue_ok]])

lemma tie_queue_ok: "queue tie_queue 1 [2, 3]"
  by (simp add: queue_def tie_queue_def is_list_head_def link_def get_next_def get_prev_def
      elem_ok_def get_value_def get_chars_def value_ptr_def)

lemma tie_queue_strings: "elem_string tie_queue 2 = ''a''" "elem_string tie_queue 3 = ''a''"
  by (simp_all add: tie_queue_def elem_string_def get_value_def get_chars_def value_ptr_def
      cstr_def NUL_def)

lemma tie_queue_order: "msort_list (elem_string tie_queue) [2, 3] = [3, 2]"
  by (simp add: msort_list.simps tie_queue_strings)

lemma tie_chains_ok:
  "chain tie_chains 2 [2]" "chain tie_chains 3 [3]" "list_all (elem_ok tie_chains) [2, 3]"
  by (simp_all add: tie_chains_def get_next_def elem_ok_def get_value_def get_chars_def)

lemma tie_chains_strings: "elem_string tie_chains 2 = ''a''" "elem_string tie_chains 3 = ''a''"
  by (simp_all add: tie_chains_def elem_string_def get_value_def get_chars_def value_ptr_def
      cstr_def NUL_def)

lemma tie_chains_merge: "\<exists>r s'. merge 2 3 tie_chains = Some (Inr (r, s')) \<and> chain s' r [3, 2]"
proof -
  have d: "distinct ([2::nat] @ [3])" by simp
  have e: "\<forall>x\<in>set ([2] @ [3]). elem_ok tie_chains x \<and>
             elem_string tie_chains x = elem_string tie_chains x"
    using tie_chains_ok(3) by simp
  from merge_correct[OF tie_chains_ok(1,2) d e] obtain r s' where
    "merge 2 3 tie_chains = Some (Inr (r, s'))"
    "chain s' r (merge_list (elem_string tie_chains) [2] [3])"
    by blast
  then show ?thesis by (simp add: tie_chains_strings)
qed

text \<open>
  C4 (corrected). The claim is false as stated. On two one-element chains with equal
  strings \<open>merge\<close> puts the node of the second chain first, and \<open>q_sort\<close> on the
  already sorted queue \<open>["a", "a"]\<close> exchanges its two elements.
\<close>

theorem q_sort_reorders_equal_values:
  "queue tie_queue 1 [2, 3] \<and>
   elem_string tie_queue 2 = elem_string tie_queue 3 \<and>
   sorted (map (elem_string tie_queue) [2, 3]) \<and>
   (case q_sort 1 tie_queue of
      Some (Inr s') \<Rightarrow> queue s' 1 [3, 2] \<and> \<not> queue s' 1 [2, 3]
    | _ \<Rightarrow> False) \<and>
   chain tie_chains 2 [2] \<and> chain tie_chains 3 [3] \<and>
   elem_string tie_chains 2 = elem_string tie_chains 3 \<and>
   (case merge 2 3 tie_chains of
      Some (Inr (r, s')) \<Rightarrow> chain s' r [3, 2]
    | _ \<Rightarrow> False)"
proof -
  from q_sort_queue[OF tie_queue_ok] obtain s' where
    run: "q_sort 1 tie_queue = Some (Inr s')" and q': "queue s' 1 [3, 2]"
    unfolding tie_queue_order by blast
  have "get_next s' 1 = Inr 3" using queue_next_head[OF q'] by simp
  then have "\<not> queue s' 1 [2, 3]" using queue_next_head[of s' 1 "[2, 3]"] by auto
  moreover obtain r t where "merge 2 3 tie_chains = Some (Inr (r, t))" "chain t r [3, 2]"
    using tie_chains_merge by blast
  ultimately show ?thesis
    using run q' tie_queue_ok tie_chains_ok
    by (simp add: tie_queue_strings tie_chains_strings)
qed

text \<open>
  C4 as amended. In the merge step the head of the first chain is appended only when
  \<open>strcmp\<close> is negative; when the two head values compare equal (or the first is
  greater) the head of the second chain is appended first, so the sort is not stable.
  Sorting a queue whose strings already ascend leaves the sequence of strings as it
  was; elements with equal strings may change places.
\<close>

theorem merge_takes_second_on_ties:
  "(chain s first (x # as) \<and> chain s second (y # bs) \<and> distinct (x # as @ y # bs) \<and>
      list_all (elem_ok s) (x # as @ y # bs) \<longrightarrow>
      (\<exists>r s'. merge first second s = Some (Inr (r, s')) \<and>
         chain s' r
           (if strcmp_bytes (elem_string s x) (elem_string s y) < 0
            then x # merge_list (elem_string s) as (y # bs)
            else y # merge_list (elem_string s) (x # as) bs))) \<and>
   (queue t head xs \<and> sorted (map (elem_string t) xs) \<longrightarrow>
      (\<exists>t' ys. q_sort head t = Some (Inr t') \<and> queue t' head ys \<and> mset ys = mset xs \<and>
         map (elem_string t') ys = map (elem_string t) xs))"
proof (intro conjI impI)
  assume a: "chain s first (x # as) \<and> chain s second (y # bs) \<and>
      distinct (x # as @ y # bs) \<and> list_all (elem_ok s) (x # as @ y # bs)"
  have d: "distinct ((x # as) @ y # bs)" using a by simp
  have e: "\<forall>z\<in>set ((x # as) @ y # bs). elem_ok s z \<and> elem_string s z = elem_string s z"
    using a by (simp add: list_all_iff)
  from merge_correct[OF _ _ d e, of first second] a obtain r s' where
    "merge first second s = Some (Inr (r, s'))"
    "chain s' r (merge_list (elem_string s) (x # as) (y # bs))"
    by blast
  then show "\<exists>r s'. merge first second s = Some (Inr (r, s')) \<and>
         chain s' r
           (if strcmp_bytes (elem_string s x) (elem_string s y) < 0
            then x # merge_list (elem_string s) as (y # bs)
            else y # merge_list (elem_string s) (x # as) bs)"
    by (intro exI[of _ r] exI[of _ s']) (simp split: if_splits)
next
  assume b: "queue t head xs \<and> sorted (map (elem_string t) xs)"
  then have q: "queue t head xs" by simp
  have "sorted_wrt (\<lambda>a b. str_le (elem_string t a) (elem_string t b)) xs"
    using b by (simp add: sorted_wrt_map str_le_iff)
  then have k: "map (elem_string t) (msort_list (elem_string t) xs) = map (elem_string t) xs"
    by (rule msort_list_sorted_keys)
  from q_sort_queue[OF q] obtain t' where
    "q_sort head t = Some (Inr t')" "queue t' head (msort_list (elem_string t) xs)"
    "elem_string t' = elem_string t"
    by blast
  then show "\<exists>t' ys. q_sort head t = Some (Inr t') \<and> queue t' head ys \<and> mset ys = mset xs \<and>
         map (elem_string t') ys = map (elem_string t) xs"
    using k mset_msort_list[of "elem_string t" xs] by auto
qed

theorem merge_takes_second_on_ties_witness:
  "chain tie_chains 2 [2] \<and> chain tie_chains 3 [3] \<and> distinct [2 :: nat, 3] \<and>
   list_all (elem_ok tie_chains) [2, 3] \<and>
   strcmp_bytes (elem_string tie_chains 2) (elem_string tie_chains 3) = 0 \<and>
   (\<exists>r s'. merge 2 3 tie_chains = Some (Inr (r, s')) \<and> chain s' r [3, 2]) \<and>
   queue tie_queue 1 [2, 3] \<and> sorted (map (elem_string tie_queue) [2, 3]) \<and>
   (\<exists>t' ys. q_sort 1 tie_queue = Some (Inr t') \<and> queue t' 1 ys \<and> mset ys = mset [2, 3] \<and>
      map (elem_string t') ys = [''a'', ''a''])"
proof -
  have p1: "chain tie_chains 2 (2 # []) \<and> chain tie_chains 3 (3 # []) \<and>
      distinct ((2::nat) # [] @ 3 # []) \<and> list_all (elem_ok tie_chains) (2 # [] @ 3 # [])"
    using tie_chains_ok by simp
  have p2: "queue tie_queue 1 [2, 3] \<and> sorted (map (elem_string tie_queue) [2, 3])"
    using tie_queue_ok by (simp add: tie_queue_strings)
  note w = merge_takes_second_on_ties[of tie_chains 2 2 "[]" 3 3 "[]" tie_queue 1 "[2, 3]"]
  have m: "\<exists>r s'. merge 2 3 tie_chains = Some (Inr (r, s')) \<and> chain s' r [3, 2]"
    using w[THEN conjunct1, rule_format, OF p1] by (simp add: tie_chains_strings)
  have s: "\<exists>t' ys. q_sort 1 tie_queue = Some (Inr t') \<and> queue t' 1 ys \<and>
      mset ys = mset [2, 3] \<and> map (elem_string t') ys = [''a'', ''a'']"
    using w[THEN conjunct2, rule_format, OF p2] by (simp add: tie_queue_strings)
  show ?thesis using m s tie_chains_ok tie_queue_ok
    by (simp add: tie_chains_strings tie_queue_strings)
qed

end
